theory Spec2Isabelle
  imports Main "HOL-Library.Sublist"
begin

text \<open>
  The GLSL minifier of \<open>scripts/shader_minifier.py\<close>: the function \<open>format_shader\<close>,
  which removes comments, blank lines and indentation from a shader text, joins the
  code lines and keeps each preprocessor directive on a line of its own.
\<close>

section \<open>Python strings and the string operations the minifier uses\<close>

text \<open>
  A Python \<open>str\<close> is a sequence of Unicode code points; it is modelled as a list of
  natural numbers, one per code point. A literal of the source is written with \<open>str\<close>,
  which maps the characters of an Isabelle string literal to their code points.
\<close>

type_synonym ustr = "nat list"

definition str :: "string \<Rightarrow> ustr" where
  "str s = map of_char s"

text \<open>The newline character \<open>"\n"\<close> (code point 10).\<close>

definition NL :: ustr where
  "NL = [10]"

text \<open>The exceptions that the operations used by \<open>format_shader\<close> can raise.\<close>

datatype error = ValueError | IndexError

text \<open>
  \<open>str.isspace\<close> on one character, which is what \<open>strip\<close>, \<open>lstrip\<close> and
  \<open>rstrip\<close> without argument remove: the Unicode white space characters.
\<close>

definition is_space :: "nat \<Rightarrow> bool" where
  "is_space c \<longleftrightarrow>
     (9 \<le> c \<and> c \<le> 13) \<or> (28 \<le> c \<and> c \<le> 32) \<or> c = 133 \<or> c = 160 \<or> c = 5760 \<or>
     (8192 \<le> c \<and> c \<le> 8202) \<or> c = 8232 \<or> c = 8233 \<or> c = 8239 \<or> c = 8287 \<or> c = 12288"

text \<open>
  The line boundaries of \<open>str.splitlines\<close>: LF, VT, FF, CR, FS, GS, RS, NEL, and the
  Unicode line and paragraph separators. CR followed by LF is one boundary.
\<close>

definition is_linebreak :: "nat \<Rightarrow> bool" where
  "is_linebreak c \<longleftrightarrow>
     (10 \<le> c \<and> c \<le> 13) \<or> (28 \<le> c \<and> c \<le> 30) \<or> c = 133 \<or> c = 8232 \<or> c = 8233"

text \<open>
  \<open>s.splitlines()\<close>: the lines of \<open>s\<close> without their terminators. \<open>cur\<close> is the line
  being read. A terminator at the very end does not open a further, empty line.
\<close>

function splitlines_from :: "ustr \<Rightarrow> ustr \<Rightarrow> ustr list" where
  "splitlines_from cur [] = (if cur = [] then [] else [cur])"
| "splitlines_from cur (c # cs) =
     (if is_linebreak c then
        cur # splitlines_from [] (if c = 13 \<and> cs \<noteq> [] \<and> hd cs = 10 then tl cs else cs)
      else splitlines_from (cur @ [c]) cs)"
  by pat_completeness auto
termination
  by (relation "measure (\<lambda>(cur, s). length s)") auto

definition splitlines :: "ustr \<Rightarrow> ustr list" where
  "splitlines s = splitlines_from [] s"

text \<open>
  \<open>s.find(sub, start)\<close>: the lowest index at or after \<open>start\<close> where \<open>sub\<close> occurs in
  \<open>s\<close>, or \<open>-1\<close>. A negative \<open>start\<close> counts from the end, as in a slice.
\<close>

fun find_at :: "nat \<Rightarrow> ustr \<Rightarrow> ustr \<Rightarrow> int" where
  "find_at i sub [] = (if sub = [] then int i else - 1)"
| "find_at i sub (c # cs) = (if prefix sub (c # cs) then int i else find_at (Suc i) sub cs)"

definition find_str_from :: "ustr \<Rightarrow> ustr \<Rightarrow> int \<Rightarrow> int" where
  "find_str_from s sub start =
     (let n = int (length s);
          b = (if start < 0 then max 0 (start + n) else start)
      in if n < b then - 1 else find_at (nat b) sub (drop (nat b) s))"

definition find_str :: "ustr \<Rightarrow> ustr \<Rightarrow> int" where
  "find_str s sub = find_str_from s sub 0"

text \<open>The slices \<open>s[i:]\<close> and \<open>s[:i]\<close>; a negative index counts from the end.\<close>

definition slice_from :: "ustr \<Rightarrow> int \<Rightarrow> ustr" where
  "slice_from s i = drop (nat (if i < 0 then max 0 (i + int (length s)) else i)) s"

definition slice_to :: "ustr \<Rightarrow> int \<Rightarrow> ustr" where
  "slice_to s i = take (nat (if i < 0 then max 0 (i + int (length s)) else i)) s"

definition lstrip :: "ustr \<Rightarrow> ustr" where
  "lstrip s = dropWhile is_space s"

definition rstrip :: "ustr \<Rightarrow> ustr" where
  "rstrip s = rev (dropWhile is_space (rev s))"

definition strip :: "ustr \<Rightarrow> ustr" where
  "strip s = rstrip (lstrip s)"

definition startswith :: "ustr \<Rightarrow> ustr \<Rightarrow> bool" where
  "startswith s p \<longleftrightarrow> prefix p s"

text \<open>
  \<open>s.split(sep)\<close>: the pieces of \<open>s\<close> between the occurrences of \<open>sep\<close>, read from the
  left without overlap. An empty separator raises \<open>ValueError\<close>.
\<close>

function split_from :: "ustr \<Rightarrow> ustr \<Rightarrow> ustr \<Rightarrow> ustr list" where
  "split_from sep cur [] = [cur]"
| "split_from sep cur (c # cs) =
     (if sep \<noteq> [] \<and> prefix sep (c # cs)
      then cur # split_from sep [] (drop (length sep) (c # cs))
      else split_from sep (cur @ [c]) cs)"
  by pat_completeness auto
termination
  by (relation "measure (\<lambda>(sep, cur, s). length s)") auto

definition split_str :: "ustr \<Rightarrow> ustr \<Rightarrow> error + ustr list" where
  "split_str s sep = (if sep = [] then Inl ValueError else Inr (split_from sep [] s))"

text \<open>\<open>xs[i]\<close>: out of range raises \<open>IndexError\<close>.\<close>

definition getitem :: "'a list \<Rightarrow> int \<Rightarrow> error + 'a" where
  "getitem xs i =
     (let j = (if i < 0 then i + int (length xs) else i)
      in if 0 \<le> j \<and> j < int (length xs) then Inr (xs ! nat j) else Inl IndexError)"

text \<open>\<open>sep.join(xs)\<close>.\<close>

fun join :: "ustr \<Rightarrow> ustr list \<Rightarrow> ustr" where
  "join sep [] = []"
| "join sep [x] = x"
| "join sep (x # y # ys) = x @ sep @ join sep (y # ys)"

section \<open>The minifier: \<open>format_shader\<close>\<close>

text \<open>The three local variables of \<open>format_shader\<close> that the loop updates.\<close>

record state =
  output_lines :: "ustr list"
  buffer_line :: ustr
  in_multiline_comment :: bool

definition init_state :: state where
  "init_state = \<lparr>output_lines = [], buffer_line = [], in_multiline_comment = False\<rparr>"

text \<open>
  Lines 37 to 45, "Handle multiline comments": inside a block comment the line is cut
  after the first \<open>*/\<close> and the flag is cleared, or, without a \<open>*/\<close>, the line is skipped
  (\<open>continue\<close>, the value \<open>None\<close>). The result is the flag and the line.
\<close>

definition handle_multiline :: "bool \<Rightarrow> ustr \<Rightarrow> (bool \<times> ustr) option" where
  "handle_multiline in_comment line =
     (if in_comment then
        (let end_comment_index = find_str line (str ''*/'') in
         if end_comment_index \<noteq> - 1
         then Some (False, slice_from line (end_comment_index + 2))
         else None)
      else Some (in_comment, line))"

text \<open>
  Lines 48 to 57, "Detect the start of a multiline comment": the first \<open>/*\<close> of the line
  and the first \<open>*/\<close> after it are cut out with what lies between; without such a \<open>*/\<close>
  the line is cut at the \<open>/*\<close> and the flag is set.
\<close>

definition detect_multiline :: "bool \<Rightarrow> ustr \<Rightarrow> bool \<times> ustr" where
  "detect_multiline in_comment line =
     (let start_comment_index = find_str line (str ''/*'') in
      if start_comment_index \<noteq> - 1 then
        (let end_comment_index = find_str_from line (str ''*/'') (start_comment_index + 2) in
         if end_comment_index \<noteq> - 1
         then (in_comment,
               slice_to line start_comment_index @ slice_from line (end_comment_index + 2))
         else (True, slice_to line start_comment_index))
      else (in_comment, line))"

text \<open>
  Lines 59 to 73: an empty or blank line and a line that starts with \<open>//\<close> change
  nothing; otherwise the code line is the text before the first \<open>//\<close>, without leading
  and trailing white space. A directive flushes the buffer and is appended to the output
  lines; other code is appended to the buffer.
\<close>

definition emit_line :: "state \<Rightarrow> ustr \<Rightarrow> error + state" where
  "emit_line st line =
     (if strip line \<noteq> [] then
        (let formatted_line = lstrip line in
         if \<not> startswith formatted_line (str ''//'') then
           (case split_str formatted_line (str ''//'') of
              Inl e \<Rightarrow> Inl e
            | Inr pieces \<Rightarrow>
               (case getitem pieces 0 of
                  Inl e \<Rightarrow> Inl e
                | Inr piece \<Rightarrow>
                   (let code_line = rstrip piece in
                    if startswith code_line (str ''#'') then
                      (let st1 = (if buffer_line st \<noteq> []
                                  then st\<lparr>output_lines := output_lines st @ [buffer_line st],
                                          buffer_line := []\<rparr>
                                  else st)
                       in Inr (st1\<lparr>output_lines := output_lines st1 @ [code_line]\<rparr>))
                    else Inr (st\<lparr>buffer_line := buffer_line st @ code_line\<rparr>))))
         else Inr st)
      else Inr st)"

text \<open>The body of the \<open>for\<close> loop, lines 36 to 73.\<close>

definition loop_body :: "state \<Rightarrow> ustr \<Rightarrow> error + state" where
  "loop_body st line =
     (case handle_multiline (in_multiline_comment st) line of
        None \<Rightarrow> Inr st
      | Some (in_comment1, line1) \<Rightarrow>
         (case detect_multiline in_comment1 line1 of
            (in_comment2, line2) \<Rightarrow> emit_line (st\<lparr>in_multiline_comment := in_comment2\<rparr>) line2))"

text \<open>The \<open>for\<close> loop over the lines; an exception ends it.\<close>

fun loop :: "state \<Rightarrow> ustr list \<Rightarrow> error + state" where
  "loop st [] = Inr st"
| "loop st (line # lines) =
     (case loop_body st line of Inl e \<Rightarrow> Inl e | Inr st' \<Rightarrow> loop st' lines)"

text \<open>Lines 76 and 77: the remaining buffer is the last output line.\<close>

definition final_lines :: "state \<Rightarrow> ustr list" where
  "final_lines st =
     (if buffer_line st \<noteq> [] then output_lines st @ [buffer_line st] else output_lines st)"

text \<open>\<open>format_shader\<close> on the lines of the input, before the final \<open>join\<close>.\<close>

definition format_lines :: "ustr list \<Rightarrow> error + ustr list" where
  "format_lines lines =
     (case loop init_state lines of Inl e \<Rightarrow> Inl e | Inr st \<Rightarrow> Inr (final_lines st))"

definition format_shader :: "ustr \<Rightarrow> error + ustr" where
  "format_shader input_string =
     (case format_lines (splitlines input_string) of
        Inl e \<Rightarrow> Inl e
      | Inr out \<Rightarrow> Inr (join NL out))"

section \<open>Notions used to state the properties\<close>

text \<open>The text of \<open>s\<close> before the first occurrence of \<open>sep\<close> (all of \<open>s\<close> without one).\<close>

fun cut_at :: "ustr \<Rightarrow> ustr \<Rightarrow> ustr" where
  "cut_at sep [] = []"
| "cut_at sep (c # cs) = (if prefix sep (c # cs) then [] else c # cut_at sep cs)"

text \<open>
  The code line that lines 59 to 63 compute from a line, \<open>None\<close> for a blank line or a
  line that starts with \<open>//\<close>.
\<close>

definition code_line :: "ustr \<Rightarrow> ustr option" where
  "code_line line =
     (if strip line = [] \<or> startswith (lstrip line) (str ''//'') then None
      else Some (rstrip (cut_at (str ''//'') (lstrip line))))"

text \<open>Lines 65 to 73: what the loop does with a code line.\<close>

definition push_line :: "state \<Rightarrow> ustr \<Rightarrow> state" where
  "push_line st c =
     (if startswith c (str ''#'')
      then st\<lparr>output_lines := final_lines st @ [c], buffer_line := []\<rparr>
      else st\<lparr>buffer_line := buffer_line st @ c\<rparr>)"

text \<open>The state after one line, as \<open>loop_body\<close> computes it.\<close>

definition next_state :: "state \<Rightarrow> ustr \<Rightarrow> state" where
  "next_state st line =
     (case handle_multiline (in_multiline_comment st) line of
        None \<Rightarrow> st
      | Some (in_comment1, line1) \<Rightarrow>
         (case detect_multiline in_comment1 line1 of
            (in_comment2, line2) \<Rightarrow>
              (case code_line line2 of
                 None \<Rightarrow> st\<lparr>in_multiline_comment := in_comment2\<rparr>
               | Some c \<Rightarrow> push_line (st\<lparr>in_multiline_comment := in_comment2\<rparr>) c)))"

text \<open>
  The line splitting of the specification, written from its words: the input is split at
  each \<open>\n\<close>, with or without a \<open>\r\<close> before it, and at nothing else.
\<close>

function spec_lines_from :: "ustr \<Rightarrow> ustr \<Rightarrow> ustr list" where
  "spec_lines_from cur [] = (if cur = [] then [] else [cur])"
| "spec_lines_from cur (c # cs) =
     (if c = 10 then cur # spec_lines_from [] cs
      else if c = 13 \<and> cs \<noteq> [] \<and> hd cs = 10 then cur # spec_lines_from [] (tl cs)
      else spec_lines_from (cur @ [c]) cs)"
  by pat_completeness auto

termination
  by (relation "measure (\<lambda>(cur, s). length s)") auto

definition spec_lines :: "ustr \<Rightarrow> ustr list" where
  "spec_lines s = spec_lines_from [] s"

text \<open>Every line boundary character of \<open>s\<close> is a \<open>\n\<close>, or a \<open>\r\<close> followed by \<open>\n\<close>.\<close>

fun newline_only :: "ustr \<Rightarrow> bool" where
  "newline_only [] = True"
| "newline_only (c # cs) =
     ((is_linebreak c \<longrightarrow> c = 10 \<or> (c = 13 \<and> cs \<noteq> [] \<and> hd cs = 10)) \<and> newline_only cs)"

text \<open>
  A line that is not empty, neither begins nor ends with white space, and holds no line
  boundary character.
\<close>

definition tidy :: "ustr \<Rightarrow> bool" where
  "tidy l \<longleftrightarrow> l \<noteq> [] \<and> \<not> is_space (hd l) \<and> \<not> is_space (last l) \<and>
     (\<forall>c\<in>set l. \<not> is_linebreak c)"

text \<open>The loop invariant: the output lines are tidy, and so is a non-empty buffer.\<close>

definition tidy_state :: "state \<Rightarrow> bool" where
  "tidy_state st \<longleftrightarrow>
     (\<forall>l\<in>set (output_lines st). tidy l) \<and> (buffer_line st = [] \<or> tidy (buffer_line st))"

text \<open>A code line that is a preprocessor directive (line 65).\<close>

definition is_directive :: "ustr \<Rightarrow> bool" where
  "is_directive c \<longleftrightarrow> startswith c (str ''#'')"

text \<open>
  The code lines of the input lines in order, as lines 37 to 63 compute them one after
  the other, starting with the flag \<open>f\<close>; skipped lines give none.
\<close>

fun code_lines :: "bool \<Rightarrow> ustr list \<Rightarrow> ustr list" where
  "code_lines f [] = []"
| "code_lines f (l # ls) =
     (case handle_multiline f l of
        None \<Rightarrow> code_lines f ls
      | Some (f1, l1) \<Rightarrow>
         (case detect_multiline f1 l1 of
            (f2, l2) \<Rightarrow>
              (case code_line l2 of
                 None \<Rightarrow> code_lines f2 ls
               | Some c \<Rightarrow> c # code_lines f2 ls)))"

text \<open>No two lines in a row are both code: between two code lines there is a directive.\<close>

fun no_adjacent_code :: "ustr list \<Rightarrow> bool" where
  "no_adjacent_code [] = True"
| "no_adjacent_code [x] = True"
| "no_adjacent_code (x # y # r) = ((is_directive x \<or> is_directive y) \<and> no_adjacent_code (y # r))"

text \<open>
  A minified text: its lines are separated by single newlines, with none at the end;
  no line is blank or has white space at either end; there is neither \<open>//\<close> nor \<open>/*\<close>;
  and no two code lines are in a row.
\<close>

definition minified :: "ustr \<Rightarrow> bool" where
  "minified s \<longleftrightarrow>
     (let ls = splitlines s in
      s = join NL ls \<and>
      (\<forall>l\<in>set ls. l \<noteq> [] \<and> strip l = l \<and>
                   \<not> sublist (str ''//'') l \<and> \<not> sublist (str ''/*'') l) \<and>
      no_adjacent_code ls)"

text \<open>The loop invariant behind \<open>no_adjacent_code\<close>: the last output line is a directive.\<close>

definition runs_state :: "state \<Rightarrow> bool" where
  "runs_state st \<longleftrightarrow>
     no_adjacent_code (output_lines st) \<and>
     (output_lines st = [] \<or> is_directive (last (output_lines st))) \<and>
     \<not> is_directive (buffer_line st)"

text \<open>
  The comment regions in the words of the specification's glossary: a line comment
  begins with \<open>//\<close> and extends to the end of its line; a block comment is delimited by
  \<open>/*\<close> and \<open>*/\<close> and may span lines. \<open>uncommented f l\<close> reads the line \<open>l\<close>, inside a
  block comment when \<open>f\<close> holds, and gives the flag at the end of the line with the
  characters of the line that lie in no comment region. What follows a \<open>/*\<close> without
  \<open>*/\<close> counts as comment to the end of the input.
\<close>

function uncommented :: "bool \<Rightarrow> ustr \<Rightarrow> bool \<times> ustr" where
  "uncommented f [] = (f, [])"
| "uncommented True (c # cs) =
     (if prefix (str ''*/'') (c # cs) then uncommented False (tl cs) else uncommented True cs)"
| "uncommented False (c # cs) =
     (if prefix (str ''//'') (c # cs) then (False, [])
      else if prefix (str ''/*'') (c # cs) then uncommented True (tl cs)
      else (case uncommented False cs of (f, t) \<Rightarrow> (f, c # t)))"
  by pat_completeness auto

termination
  by (relation "measure (\<lambda>(f, s). length s)") auto

text \<open>The text outside comments of each line of a list of lines.\<close>

fun uncommented_lines :: "bool \<Rightarrow> ustr list \<Rightarrow> ustr list" where
  "uncommented_lines f [] = []"
| "uncommented_lines f (l # ls) =
     (case uncommented f l of (f', t) \<Rightarrow> t # uncommented_lines f' ls)"

text \<open>The text after the first \<open>*/\<close> of \<open>s\<close>, \<open>None\<close> when \<open>s\<close> has no \<open>*/\<close>.\<close>

fun after_close :: "ustr \<Rightarrow> ustr option" where
  "after_close [] = None"
| "after_close (c # cs) =
     (if prefix (str ''*/'') (c # cs) then Some (tl cs) else after_close cs)"

text \<open>The first comment marker of the text is a \<open>/*\<close>, and not a \<open>//\<close>.\<close>

fun opens_first :: "ustr \<Rightarrow> bool" where
  "opens_first [] = False"
| "opens_first (c # cs) =
     (if prefix (str ''//'') (c # cs) then False
      else if prefix (str ''/*'') (c # cs) then True
      else opens_first cs)"

text \<open>The first \<open>/*\<close> of the text, if it has one, has a \<open>*/\<close> after it.\<close>

fun first_open_closed :: "ustr \<Rightarrow> bool" where
  "first_open_closed [] = True"
| "first_open_closed (c # cs) =
     (if prefix (str ''/*'') (c # cs) then after_close (tl cs) \<noteq> None
      else first_open_closed cs)"

text \<open>
  The one detection of a block comment per line suffices for the text of \<open>r\<close>, read
  outside a block comment. The text is read up to its first comment marker.
  \<^item> At a \<open>/*\<close>: the comment is not closed on the line, or after its \<open>*/\<close> no further
    block comment begins before a \<open>//\<close>.
  \<^item> At a \<open>//\<close>: no \<open>/*\<close> begins at the second slash of the \<open>//\<close>; or one does, and
    it has a \<open>*/\<close> after it that is followed directly by a \<open>/\<close>.
\<close>

fun text_ok :: "ustr \<Rightarrow> bool" where
  "text_ok [] = True"
| "text_ok (c # cs) =
     (if prefix (str ''//'') (c # cs) then
        (if prefix (str ''/*'') cs
         then (case after_close (tl (tl cs)) of None \<Rightarrow> False | Some y \<Rightarrow> prefix [47] y)
         else True)
      else if prefix (str ''/*'') (c # cs) then
        (case after_close (tl cs) of None \<Rightarrow> True | Some r \<Rightarrow> \<not> opens_first r)
      else text_ok cs)"

text \<open>
  It suffices for the flag as well: when the first comment marker of \<open>r\<close> is a \<open>//\<close>,
  the first \<open>/*\<close> inside that line comment, if there is one, has a \<open>*/\<close> after it.
\<close>

fun flag_ok :: "ustr \<Rightarrow> bool" where
  "flag_ok [] = True"
| "flag_ok (c # cs) =
     (if prefix (str ''//'') (c # cs) then first_open_closed cs
      else if prefix (str ''/*'') (c # cs) then True
      else flag_ok cs)"

text \<open>
  The same for a line that is read with the flag \<open>f\<close>: inside a block comment the part
  after the first \<open>*/\<close> counts, and a line without \<open>*/\<close> is all comment.
\<close>

definition detectable_text :: "bool \<Rightarrow> ustr \<Rightarrow> bool" where
  "detectable_text f l =
     (if f then (case after_close l of None \<Rightarrow> True | Some r \<Rightarrow> text_ok r) else text_ok l)"

definition detectable_flag :: "bool \<Rightarrow> ustr \<Rightarrow> bool" where
  "detectable_flag f l =
     (if f then (case after_close l of None \<Rightarrow> True | Some r \<Rightarrow> flag_ok r) else flag_ok l)"

text \<open>No comment marker begins within \<open>a\<close> when \<open>a\<close> is followed by \<open>m\<close>.\<close>

fun unmarked :: "ustr \<Rightarrow> ustr \<Rightarrow> bool" where
  "unmarked [] m = True"
| "unmarked (c # a) m =
     (\<not> prefix (str ''//'') (c # a @ m) \<and> \<not> prefix (str ''/*'') (c # a @ m) \<and> unmarked a m)"

text \<open>
  The one detection suffices on every line of the list, the first line being read with
  the flag \<open>f\<close> and each further line with the flag that the comment regions give: for
  the text on every line, and for the flag on every line that has a line after it.
\<close>

fun detectable_lines :: "bool \<Rightarrow> ustr list \<Rightarrow> bool" where
  "detectable_lines f [] = True"
| "detectable_lines f (l # ls) =
     (detectable_text f l \<and>
      (ls = [] \<or> (detectable_flag f l \<and> detectable_lines (fst (uncommented f l)) ls)))"

text \<open>
  The output lines for a list of code lines, in the words of steps g, h and 4 of the
  specification: a directive first flushes a non-empty buffer as an output line and is
  then an output line of its own; other code is appended to the buffer, with no
  separator; at the end a non-empty buffer is flushed.
\<close>

fun assemble :: "ustr \<Rightarrow> ustr list \<Rightarrow> ustr list" where
  "assemble buf [] = (if buf = [] then [] else [buf])"
| "assemble buf (c # cs) =
     (if is_directive c then (if buf = [] then [] else [buf]) @ c # assemble [] cs
      else assemble (buf @ c) cs)"

text \<open>
  The code lines of a text by the comment regions: of each line the text outside
  comments, without leading and trailing white space, when that is not empty.
\<close>

definition code_outside_comments :: "ustr list \<Rightarrow> ustr list" where
  "code_outside_comments ls =
     filter (\<lambda>c. c \<noteq> []) (map strip (uncommented_lines False ls))"

section \<open>The string operations\<close>

lemma str_simps:
  "str ''//'' = [47, 47]" "str ''/*'' = [47, 42]" "str ''*/'' = [42, 47]" "str ''#'' = [35]"
  by (simp_all add: str_def)

lemma split_from_head:
  "sep \<noteq> [] \<Longrightarrow> \<exists>rest. split_from sep cur s = (cur @ cut_at sep s) # rest"
  by (induction sep cur s rule: split_from.induct) auto

lemma getitem_split:
  "sep \<noteq> [] \<Longrightarrow> getitem (split_from sep cur s) 0 = Inr (cur @ cut_at sep s)"
  using split_from_head [of sep cur s] by (auto simp: getitem_def)

lemma find_at_none: "\<not> sublist sub s \<Longrightarrow> find_at i sub s = - 1"
  by (induction s arbitrary: i) (auto simp: sublist_Cons_right)

lemma find_at_range: "find_at i sub s = - 1 \<or> int i \<le> find_at i sub s"
proof (induction s arbitrary: i)
  case Nil
  show ?case by simp
next
  case (Cons c cs)
  from Cons [of "Suc i"] show ?case by auto
qed

lemma find_at_found: "sublist sub s \<Longrightarrow> int i \<le> find_at i sub s"
proof (induction s arbitrary: i)
  case Nil
  then show ?case by simp
next
  case (Cons c cs)
  show ?case
  proof (cases "prefix sub (c # cs)")
    case True
    then show ?thesis by simp
  next
    case False
    with Cons.prems have "sublist sub cs" by (simp add: sublist_Cons_right)
    from Cons.IH [OF this, of "Suc i"] False show ?thesis by simp
  qed
qed

lemma find_at_eq_minus1: "find_at i sub s = - 1 \<longleftrightarrow> \<not> sublist sub s"
  using find_at_none [of sub s i] find_at_found [of sub s i] by force

lemma find_at_first2:
  "x \<noteq> y \<Longrightarrow> \<not> sublist [x, y] a \<Longrightarrow> find_at i [x, y] (a @ x # y # b) = int (i + length a)"
proof (induction a arbitrary: i)
  case Nil
  then show ?case by simp
next
  case (Cons c cs)
  from Cons.prems have no: "\<not> prefix [x, y] (c # cs)" "\<not> sublist [x, y] cs"
    by (simp_all add: sublist_Cons_right)
  have "\<not> prefix [x, y] (c # cs @ x # y # b)"
  proof (cases cs)
    case Nil
    with Cons.prems(1) show ?thesis by auto
  next
    case (Cons d ds)
    with no(1) show ?thesis by auto
  qed
  with Cons.IH [OF Cons.prems(1) no(2), of "Suc i"] show ?case by simp
qed

lemma find_str_none: "\<not> sublist sub s \<Longrightarrow> find_str s sub = - 1"
  by (simp add: find_str_def find_str_from_def find_at_none)

lemma find_str_eq_minus1: "find_str s sub = - 1 \<longleftrightarrow> \<not> sublist sub s"
  by (simp add: find_str_def find_str_from_def find_at_eq_minus1)

lemma find_str_first2:
  "x \<noteq> y \<Longrightarrow> \<not> sublist [x, y] a \<Longrightarrow> find_str (a @ x # y # b) [x, y] = int (length a)"
  using find_at_first2 [of x y a 0 b] by (simp add: find_str_def find_str_from_def)

lemma find_str_from_none2:
  "\<not> sublist sub b \<Longrightarrow> find_str_from (a @ x # y # b) sub (int (length a) + 2) = - 1"
  by (simp add: find_str_from_def find_at_none nat_add_distrib)

lemma find_str_from_first2:
  "x \<noteq> y \<Longrightarrow> \<not> sublist [x, y] b \<Longrightarrow>
   find_str_from (a @ u # v # b @ x # y # c) [x, y] (int (length a) + 2)
     = int (length a) + 2 + int (length b)"
  using find_at_first2 [of x y b "length a + 2" c]
  by (simp add: find_str_from_def nat_add_distrib)

section \<open>The loop as a fold\<close>

lemma emit_line_eq:
  "emit_line st line = Inr (case code_line line of None \<Rightarrow> st | Some c \<Rightarrow> push_line st c)"
  by (simp add: emit_line_def code_line_def push_line_def split_str_def getitem_split
      final_lines_def str_simps Let_def)

lemma loop_body_eq: "loop_body st line = Inr (next_state st line)"
  by (simp add: loop_body_def next_state_def emit_line_eq split: option.splits prod.splits)

lemma loop_eq: "loop st lines = Inr (foldl next_state st lines)"
  by (induction lines arbitrary: st) (simp_all add: loop_body_eq)

lemma format_lines_eq:
  "format_lines lines = Inr (final_lines (foldl next_state init_state lines))"
  by (simp add: format_lines_def loop_eq)

lemma format_shader_eq:
  "format_shader s = Inr (join NL (final_lines (foldl next_state init_state (splitlines s))))"
  by (simp add: format_shader_def format_lines_eq)

lemma strip_blank:
  assumes "\<forall>c\<in>set l. is_space c"
  shows "strip l = []"
proof -
  have h: "dropWhile is_space l = []" using assms by simp
  show ?thesis unfolding strip_def lstrip_def rstrip_def h by simp
qed

lemma slash_not_space: "\<not> is_space 47" "\<not> is_space 42" "\<not> is_space 35"
  by (simp_all add: is_space_def)

lemma next_state_blank:
  assumes "\<forall>c\<in>set l. is_space c" and "\<not> in_multiline_comment st"
  shows "next_state st l = st"
proof -
  have "47 \<notin> set l" using assms(1) slash_not_space by auto
  then have "\<not> sublist [47, 42] l" using set_mono_sublist [of "[47, 42]" l] by auto
  then have "find_str l (str ''/*'') = - 1" by (simp add: find_str_none str_simps)
  then show ?thesis using assms
    by (simp add: next_state_def handle_multiline_def detect_multiline_def code_line_def
        strip_blank)
qed

lemma foldl_blank:
  "\<forall>l\<in>set ls. \<forall>c\<in>set l. is_space c \<Longrightarrow> \<not> in_multiline_comment st \<Longrightarrow>
   foldl next_state st ls = st"
  by (induction ls) (simp_all add: next_state_blank)

text \<open>The definitions to unfold for running \<open>format_shader\<close> on a given text.\<close>

lemmas eval_defs =
  format_shader_def format_lines_def splitlines_def str_def NL_def is_linebreak_def
  is_space_def loop_body_def handle_multiline_def detect_multiline_def emit_line_def
  init_state_def final_lines_def find_str_def find_str_from_def slice_from_def slice_to_def
  lstrip_def rstrip_def strip_def startswith_def split_str_def getitem_def

section \<open>Totality\<close>

text \<open>
  C6: \<open>format_shader\<close> returns a string for every input and raises nothing; the empty
  input gives the empty string, and so does every input whose lines are all empty or
  made of white space only.
\<close>

theorem format_shader_total:
  "(\<exists>out. format_shader s = Inr out) \<and> format_shader [] = Inr [] \<and>
   ((\<forall>l\<in>set (splitlines s). \<forall>c\<in>set l. is_space c) \<longrightarrow> format_shader s = Inr [])"
proof (intro conjI impI)
  show "\<exists>out. format_shader s = Inr out" by (simp add: format_shader_eq)
  show "format_shader [] = Inr []"
    by (simp add: format_shader_eq splitlines_def init_state_def final_lines_def)
  assume "\<forall>l\<in>set (splitlines s). \<forall>c\<in>set l. is_space c"
  then have "foldl next_state init_state (splitlines s) = init_state"
    by (intro foldl_blank) (simp_all add: init_state_def)
  then show "format_shader s = Inr []"
    by (simp add: format_shader_eq init_state_def final_lines_def)
qed

text \<open>Three lines of blanks and a tab, ended by \<open>\n\<close> and \<open>\r\n\<close>.\<close>

theorem format_shader_total_witness:
  "format_shader ([32, 9, 10, 13, 10, 32, 32]) = Inr []"
  using format_shader_total [of "[32, 9, 10, 13, 10, 32, 32]"]
  by (simp add: splitlines_def is_linebreak_def is_space_def)

section \<open>Block comments\<close>

lemma handle_outside: "handle_multiline False l = Some (False, l)"
  by (simp add: handle_multiline_def)

lemma handle_skip: "\<not> sublist (str ''*/'') l \<Longrightarrow> handle_multiline True l = None"
  by (simp add: handle_multiline_def find_str_none)

lemma handle_close:
  assumes "\<not> sublist (str ''*/'') x"
  shows "handle_multiline True (x @ str ''*/'' @ r) = Some (False, r)"
proof -
  have "find_str (x @ 42 # 47 # r) [42, 47] = int (length x)"
    using assms by (intro find_str_first2) (simp_all add: str_simps)
  then show ?thesis by (simp add: handle_multiline_def str_simps slice_from_def nat_add_distrib)
qed

lemma detect_none: "\<not> sublist (str ''/*'') l \<Longrightarrow> detect_multiline f l = (f, l)"
  by (simp add: detect_multiline_def find_str_none)

lemma detect_open:
  assumes "\<not> sublist (str ''/*'') a" and "\<not> sublist (str ''*/'') b"
  shows "detect_multiline f (a @ str ''/*'' @ b) = (True, a)"
proof -
  have 1: "find_str (a @ 47 # 42 # b) [47, 42] = int (length a)"
    using assms(1) by (intro find_str_first2) (simp_all add: str_simps)
  have 2: "find_str_from (a @ 47 # 42 # b) [42, 47] (int (length a) + 2) = - 1"
    using assms(2) by (intro find_str_from_none2) (simp add: str_simps)
  show ?thesis by (simp add: detect_multiline_def str_simps 1 2 slice_to_def)
qed

lemma detect_pair:
  assumes "\<not> sublist (str ''/*'') a" and "\<not> sublist (str ''*/'') b"
  shows "detect_multiline f (a @ str ''/*'' @ b @ str ''*/'' @ c) = (f, a @ c)"
proof -
  define xs where "xs = a @ 47 # 42 # b @ [42, 47]"
  define L where "L = a @ str ''/*'' @ b @ str ''*/'' @ c"
  define E where "E = int (length a) + 2 + int (length b)"
  have L: "L = a @ 47 # 42 # b @ 42 # 47 # c" and L': "L = xs @ c"
    by (simp_all add: L_def xs_def str_simps)
  have 1: "find_str L (str ''/*'') = int (length a)"
    unfolding L str_simps using assms(1) by (intro find_str_first2) (simp_all add: str_simps)
  have 2: "find_str_from L (str ''*/'') (int (length a) + 2) = E"
    unfolding L str_simps E_def using assms(2)
    by (intro find_str_from_first2) (simp_all add: str_simps)
  have 3: "E \<noteq> - 1" by (simp add: E_def)
  have 4: "slice_to L (int (length a)) = a" by (simp add: L slice_to_def)
  have "E + 2 = int (length xs)" by (simp add: E_def xs_def)
  then have 5: "slice_from L (E + 2) = c" by (simp add: L' slice_from_def)
  show ?thesis
    unfolding detect_multiline_def L_def [symmetric] by (simp add: 1 2 3 4 5)
qed

text \<open>
  C5: outside a block comment, on a line that has a \<open>/*\<close> and a \<open>*/\<close> after it, the
  loop body removes the text from the first \<open>/*\<close> through the first \<open>*/\<close> after it
  and keeps what is before and after: the line is then handled by lines 59 to 73 alone
  (\<open>emit_line\<close>), which look for no block comment, so a second \<open>/*...*/\<close> of the line
  stays.
\<close>

theorem block_comment_single_detection:
  assumes "\<not> in_multiline_comment st"
    and "\<not> sublist (str ''/*'') a" and "\<not> sublist (str ''*/'') b"
  shows "loop_body st (a @ str ''/*'' @ b @ str ''*/'' @ c) = emit_line st (a @ c)"
proof -
  have same: "st\<lparr>in_multiline_comment := False\<rparr> = st" using assms(1) by simp
  show ?thesis
    using assms by (simp add: loop_body_def handle_multiline_def detect_pair same)
qed

text \<open>On \<open>x/*1*/y/*2*/z\<close> the second comment is left in place.\<close>

theorem block_comment_single_detection_witness:
  "loop_body init_state (str ''x'' @ str ''/*'' @ str ''1'' @ str ''*/'' @ str ''y/*2*/z'')
     = Inr (init_state\<lparr>buffer_line := str ''xy/*2*/z''\<rparr>)
   \<and> format_shader (str ''x/*1*/y/*2*/z'') = Inr (str ''xy/*2*/z'')"
proof -
  have "loop_body init_state (str ''x'' @ str ''/*'' @ str ''1'' @ str ''*/'' @ str ''y/*2*/z'')
     = emit_line init_state (str ''x'' @ str ''y/*2*/z'')"
    by (rule block_comment_single_detection) (simp_all add: init_state_def str_def sublist_Cons_right)
  then show ?thesis by (simp add: eval_defs)
qed

lemma push_line_flag [simp]:
  "in_multiline_comment (push_line st c) = in_multiline_comment st"
  by (simp add: push_line_def)

lemma push_line_set_flag:
  "push_line (st\<lparr>in_multiline_comment := f\<rparr>) c = (push_line st c)\<lparr>in_multiline_comment := f\<rparr>"
  by (simp add: push_line_def final_lines_def)

lemma final_lines_set_flag [simp]:
  "final_lines (st\<lparr>in_multiline_comment := f\<rparr>) = final_lines st"
  by (simp add: final_lines_def)

lemma next_state_skip:
  "in_multiline_comment st \<Longrightarrow> \<not> sublist (str ''*/'') l \<Longrightarrow> next_state st l = st"
  by (simp add: next_state_def handle_skip)

lemma foldl_skip:
  "in_multiline_comment st \<Longrightarrow> \<forall>l\<in>set ls. \<not> sublist (str ''*/'') l \<Longrightarrow>
   foldl next_state st ls = st"
  by (induction ls) (simp_all add: next_state_skip)

lemma next_state_outside:
  "\<not> in_multiline_comment st \<Longrightarrow>
   next_state st l =
     (case detect_multiline False l of
        (f, l2) \<Rightarrow> (case code_line l2 of
                      None \<Rightarrow> st\<lparr>in_multiline_comment := f\<rparr>
                    | Some c \<Rightarrow> (push_line st c)\<lparr>in_multiline_comment := f\<rparr>))"
  by (simp add: next_state_def handle_outside push_line_set_flag split: prod.splits option.splits)

lemma next_state_open:
  assumes "\<not> in_multiline_comment st"
    and "\<not> sublist (str ''/*'') a" and "\<not> sublist (str ''*/'') b"
  shows "next_state st (a @ str ''/*'' @ b) = (next_state st a)\<lparr>in_multiline_comment := True\<rparr>"
  using assms by (simp add: next_state_outside detect_open detect_none split: option.splits)

section \<open>Splitting into lines\<close>

lemma linebreak_simps: "is_linebreak 10" "is_linebreak 13" "is_linebreak 12"
  by (simp_all add: is_linebreak_def)

lemma splitlines_from_append:
  "\<forall>c\<in>set l. \<not> is_linebreak c \<Longrightarrow> splitlines_from cur (l @ r) = splitlines_from (cur @ l) r"
  by (induction l arbitrary: cur) simp_all

lemma splitlines_from_spec:
  "newline_only s \<Longrightarrow> splitlines_from cur s = spec_lines_from cur s"
proof (induction cur s rule: splitlines_from.induct)
  case (1 cur)
  show ?case by simp
next
  case (2 cur c cs)
  show ?case
  proof (cases "is_linebreak c")
    case False
    then have "c \<noteq> 10" "c \<noteq> 13" by (auto simp: is_linebreak_def)
    with False 2 show ?thesis by simp
  next
    case True
    note br = this
    show ?thesis
    proof (cases "c = 13 \<and> cs \<noteq> [] \<and> hd cs = 10")
      case True
      then obtain cs' where cs: "cs = 10 # cs'" by (cases cs) auto
      with "2.prems" have "newline_only cs'" by simp
      with "2.IH"(1) [OF br] True cs show ?thesis by (simp add: linebreak_simps)
    next
      case False
      with "2.prems" br have c: "c = 10" by auto
      from "2.prems" have "newline_only cs" by simp
      with "2.IH"(1) [OF br] c show ?thesis by (simp add: linebreak_simps)
    qed
  qed
qed

lemma splitlines_no_break:
  "\<forall>c\<in>set cur. \<not> is_linebreak c \<Longrightarrow>
   \<forall>l\<in>set (splitlines_from cur s). \<forall>c\<in>set l. \<not> is_linebreak c"
proof (induction cur s rule: splitlines_from.induct)
  case (1 cur)
  then show ?case by simp
next
  case (2 cur c cs)
  show ?case
  proof (cases "is_linebreak c")
    case True
    have "\<forall>l\<in>set (splitlines_from [] (if c = 13 \<and> cs \<noteq> [] \<and> hd cs = 10 then tl cs else cs)).
            \<forall>c\<in>set l. \<not> is_linebreak c"
      by (rule "2.IH"(1) [OF True]) simp
    with True "2.prems" show ?thesis by (simp del: splitlines_from.simps(1))
  next
    case False
    with "2.prems" have "\<forall>x\<in>set (cur @ [c]). \<not> is_linebreak x" by simp
    from "2.IH"(2) [OF False this] False show ?thesis by simp
  qed
qed

text \<open>
  C9, amended: the input is split at the line boundaries of \<open>str.splitlines\<close>. When
  \<open>\n\<close> and \<open>\r\n\<close> are its only line boundaries, the lines are those of the split at
  \<open>\n\<close> with or without \<open>\r\<close>. Every line boundary character ends a line (\<open>\r\n\<close>
  counts once), also a lone \<open>\r\<close>, VT, FF, FS, GS, RS, NEL and the Unicode line and
  paragraph separators, and no line contains one.
\<close>

theorem splitlines_boundaries:
  "(newline_only s \<longrightarrow> splitlines s = spec_lines s) \<and>
   ((\<forall>c\<in>set l. \<not> is_linebreak c) \<and> is_linebreak b \<and> \<not> (b = 13 \<and> prefix [10] r) \<longrightarrow>
      splitlines (l @ b # r) = l # splitlines r) \<and>
   ((\<forall>c\<in>set l. \<not> is_linebreak c) \<longrightarrow> splitlines (l @ 13 # 10 # r) = l # splitlines r) \<and>
   (\<forall>x\<in>set (splitlines s). \<forall>c\<in>set x. \<not> is_linebreak c)"
proof (intro conjI impI)
  show "splitlines s = spec_lines s" if "newline_only s"
    using that by (simp add: splitlines_def spec_lines_def splitlines_from_spec)
  show "splitlines (l @ b # r) = l # splitlines r"
    if "(\<forall>c\<in>set l. \<not> is_linebreak c) \<and> is_linebreak b \<and> \<not> (b = 13 \<and> prefix [10] r)"
  proof -
    from that have l: "\<forall>c\<in>set l. \<not> is_linebreak c" and b: "is_linebreak b" by simp_all
    have "\<not> (b = 13 \<and> r \<noteq> [] \<and> hd r = 10)" using that by (cases r) auto
    then have "(if b = 13 \<and> r \<noteq> [] \<and> hd r = 10 then tl r else r) = r" by auto
    with b show ?thesis by (simp add: splitlines_def splitlines_from_append [OF l])
  qed
  show "splitlines (l @ 13 # 10 # r) = l # splitlines r" if "\<forall>c\<in>set l. \<not> is_linebreak c"
    using that by (simp add: splitlines_def splitlines_from_append linebreak_simps)
  show "\<forall>x\<in>set (splitlines s). \<forall>c\<in>set x. \<not> is_linebreak c"
    unfolding splitlines_def by (rule splitlines_no_break) simp
qed

text \<open>A text with \<open>\r\n\<close> and \<open>\n\<close>, and one with NEL (code point 133).\<close>

theorem splitlines_boundaries_witness:
  "splitlines (str ''a'' @ [13, 10] @ str ''b'' @ [10] @ str ''c'')
     = spec_lines (str ''a'' @ [13, 10] @ str ''b'' @ [10] @ str ''c'')
   \<and> splitlines (str ''a'' @ 133 # str ''b'') = str ''a'' # splitlines (str ''b'')
   \<and> splitlines (str ''a'' @ 13 # 10 # str ''b'') = str ''a'' # splitlines (str ''b'')"
proof -
  have 1: "newline_only (str ''a'' @ [13, 10] @ str ''b'' @ [10] @ str ''c'')"
    by (simp add: str_def is_linebreak_def)
  have 2: "(\<forall>c\<in>set (str ''a''). \<not> is_linebreak c) \<and> is_linebreak 133 \<and>
      \<not> (133 = (13::nat) \<and> prefix [10] (str ''b''))"
    by (simp add: str_def is_linebreak_def)
  have 3: "\<forall>c\<in>set (str ''a''). \<not> is_linebreak c"
    by (simp add: str_def is_linebreak_def)
  from splitlines_boundaries [of "str ''a'' @ [13, 10] @ str ''b'' @ [10] @ str ''c''"
      "str ''a''" 133 "str ''b''"] 1 2 3
  show ?thesis by blast
qed

text \<open>
  C9 as stated fails: a form feed (code point 12) between \<open>a\<close> and \<open>b\<close> is a line
  boundary for \<open>format_shader\<close>, and none for the split at \<open>\n\<close>.
\<close>

theorem splitlines_counterexample:
  "splitlines (str ''a'' @ [12] @ str ''b'') = [str ''a'', str ''b''] \<and>
   spec_lines (str ''a'' @ [12] @ str ''b'') = [str ''a'' @ [12] @ str ''b''] \<and>
   splitlines (str ''a'' @ [12] @ str ''b'') \<noteq> spec_lines (str ''a'' @ [12] @ str ''b'')"
  by (simp add: splitlines_def spec_lines_def str_def is_linebreak_def)

section \<open>The shape of the output lines\<close>

lemma set_cut_at: "set (cut_at sep s) \<subseteq> set s"
  by (induction s) auto

lemma rstrip_shape:
  assumes "\<not> is_space x"
  shows "rstrip (x # ys) \<noteq> [] \<and> hd (rstrip (x # ys)) = x \<and> \<not> is_space (last (rstrip (x # ys)))"
proof -
  have ne: "dropWhile is_space (rev ys @ [x]) \<noteq> []"
    using assms by simp
  have "dropWhile is_space (rev ys @ [x]) = dropWhile is_space (rev ys) @ [x]
        \<or> dropWhile is_space (rev ys @ [x]) = [x]"
    using assms by (simp add: dropWhile_append)
  then have "last (dropWhile is_space (rev ys @ [x])) = x" by auto
  moreover have "\<not> is_space (hd (dropWhile is_space (rev ys @ [x])))"
    using ne by (rule hd_dropWhile)
  ultimately show ?thesis
    using ne by (simp add: rstrip_def hd_rev last_rev)
qed

lemma set_rstrip: "set (rstrip s) \<subseteq> set s"
  using set_dropWhileD [of _ is_space "rev s"] by (auto simp: rstrip_def)

lemma set_lstrip: "set (lstrip s) \<subseteq> set s"
  using set_dropWhileD [of _ is_space s] by (auto simp: lstrip_def)

lemma code_line_shape:
  assumes "code_line l = Some c"
  shows "c \<noteq> [] \<and> \<not> is_space (hd c) \<and> \<not> is_space (last c) \<and> set c \<subseteq> set l"
proof -
  from assms have ne: "strip l \<noteq> []" and nc: "\<not> startswith (lstrip l) (str ''//'')"
    and c: "c = rstrip (cut_at (str ''//'') (lstrip l))"
    by (auto simp: code_line_def split: if_splits)
  from ne have "lstrip l \<noteq> []" by (auto simp: strip_def rstrip_def)
  then obtain x xs where fl: "lstrip l = x # xs" by (cases "lstrip l") auto
  have "\<not> is_space (hd (dropWhile is_space l))"
    using \<open>lstrip l \<noteq> []\<close> unfolding lstrip_def by (rule hd_dropWhile)
  with fl have x: "\<not> is_space x" by (simp add: lstrip_def)
  from nc fl have cut: "cut_at (str ''//'') (lstrip l) = x # cut_at (str ''//'') xs"
    by (simp add: startswith_def)
  have "set c \<subseteq> set l"
    unfolding c using set_rstrip set_cut_at set_lstrip by fast
  with rstrip_shape [OF x, of "cut_at (str ''//'') xs"] x show ?thesis
    by (simp add: c cut)
qed

lemma set_handle: "handle_multiline f l = Some (f', l') \<Longrightarrow> set l' \<subseteq> set l"
  by (auto simp: handle_multiline_def slice_from_def Let_def split: if_splits dest: in_set_dropD)

lemma set_detect: "detect_multiline f l = (f', l') \<Longrightarrow> set l' \<subseteq> set l"
  by (auto simp: detect_multiline_def slice_from_def slice_to_def Let_def split: if_splits
      dest: in_set_dropD in_set_takeD)

lemma tidy_append: "(b = [] \<or> tidy b) \<Longrightarrow> tidy c \<Longrightarrow> tidy (b @ c)"
  by (auto simp: tidy_def)

lemma push_line_tidy: "tidy_state st \<Longrightarrow> tidy c \<Longrightarrow> tidy_state (push_line st c)"
  by (auto simp: tidy_state_def push_line_def final_lines_def tidy_append)

lemma next_state_tidy:
  assumes "tidy_state st" and "\<forall>c\<in>set l. \<not> is_linebreak c"
  shows "tidy_state (next_state st l)"
proof (cases "handle_multiline (in_multiline_comment st) l")
  case None
  with assms(1) show ?thesis by (simp add: next_state_def)
next
  case (Some p)
  obtain f1 l1 where p: "p = (f1, l1)" by (cases p)
  obtain f2 l2 where d: "detect_multiline f1 l1 = (f2, l2)" by (cases "detect_multiline f1 l1")
  have sub: "set l2 \<subseteq> set l" using set_handle [of _ l f1 l1] set_detect [OF d] Some p by auto
  have flag: "tidy_state (st\<lparr>in_multiline_comment := f2\<rparr>)"
    using assms(1) by (simp add: tidy_state_def)
  show ?thesis
  proof (cases "code_line l2")
    case None
    with Some p d flag show ?thesis by (simp add: next_state_def)
  next
    case (Some c)
    from code_line_shape [OF Some] sub assms(2) have "tidy c" by (auto simp: tidy_def)
    with flag have "tidy_state (push_line (st\<lparr>in_multiline_comment := f2\<rparr>) c)"
      by (rule push_line_tidy)
    with Some \<open>handle_multiline (in_multiline_comment st) l = Some p\<close> p d show ?thesis
      by (simp add: next_state_def)
  qed
qed

lemma foldl_tidy:
  "tidy_state st \<Longrightarrow> \<forall>l\<in>set ls. \<forall>c\<in>set l. \<not> is_linebreak c \<Longrightarrow>
   tidy_state (foldl next_state st ls)"
  by (induction ls arbitrary: st) (simp_all add: next_state_tidy)

lemma final_lines_tidy: "tidy_state st \<Longrightarrow> \<forall>l\<in>set (final_lines st). tidy l"
  by (auto simp: tidy_state_def final_lines_def)

lemma format_lines_tidy:
  "\<forall>l\<in>set (final_lines (foldl next_state init_state (splitlines s))). tidy l"
proof -
  have "\<forall>l\<in>set (splitlines s). \<forall>c\<in>set l. \<not> is_linebreak c"
    unfolding splitlines_def by (rule splitlines_no_break) simp
  moreover have "tidy_state init_state" by (simp add: tidy_state_def init_state_def)
  ultimately show ?thesis by (intro final_lines_tidy foldl_tidy)
qed

lemma suffix_single: "suffix [a] xs \<longleftrightarrow> xs \<noteq> [] \<and> last xs = a"
  by (cases xs rule: rev_cases) (auto simp: suffix_def)

lemma prefix_single: "prefix [b] ys \<longleftrightarrow> ys \<noteq> [] \<and> hd ys = b"
  by (cases ys) auto

lemma pair_split:
  assumes "[a, b] = xs1 @ xs2"
  shows "(xs1 = [] \<and> xs2 = [a, b]) \<or> (xs1 = [a] \<and> xs2 = [b]) \<or> (xs1 = [a, b] \<and> xs2 = [])"
proof (cases xs1)
  case Nil
  with assms show ?thesis by simp
next
  case (Cons x xs')
  with assms have x: "x = a" and r: "[b] = xs' @ xs2" by simp_all
  show ?thesis
  proof (cases xs')
    case Nil
    with r x Cons show ?thesis by simp
  next
    case (Cons y ys)
    with r have "y = b" "ys = []" "xs2 = []" by simp_all
    with x \<open>xs1 = x # xs'\<close> Cons show ?thesis by simp
  qed
qed

lemma sublist2_append:
  "sublist [a, b] (xs @ ys) \<longleftrightarrow>
     sublist [a, b] xs \<or> sublist [a, b] ys \<or> (xs \<noteq> [] \<and> last xs = a \<and> ys \<noteq> [] \<and> hd ys = b)"
proof -
  have "(\<exists>xs1 xs2. [a, b] = xs1 @ xs2 \<and> suffix xs1 xs \<and> prefix xs2 ys) \<longleftrightarrow>
        prefix [a, b] ys \<or> (suffix [a] xs \<and> prefix [b] ys) \<or> suffix [a, b] xs"
    (is "?L \<longleftrightarrow> ?R")
  proof
    assume ?L
    then obtain xs1 xs2 where s: "[a, b] = xs1 @ xs2" "suffix xs1 xs" "prefix xs2 ys" by blast
    from pair_split [OF s(1)] s(2,3) show ?R by blast
  next
    assume ?R
    then consider "prefix [a, b] ys" | "suffix [a] xs" "prefix [b] ys" | "suffix [a, b] xs"
      by blast
    then show ?L
    proof cases
      case 1
      have "[a, b] = [] @ [a, b]" by simp
      with 1 show ?thesis using suffix_bot.extremum by blast
    next
      case 2
      have "[a, b] = [a] @ [b]" by simp
      with 2 show ?thesis by blast
    next
      case 3
      have "[a, b] = [a, b] @ []" by simp
      with 3 show ?thesis using prefix_bot.extremum by blast
    qed
  qed
  then show ?thesis
    unfolding sublist_append suffix_single prefix_single
    using prefix_imp_sublist [of "[a, b]" ys] suffix_imp_sublist [of "[a, b]" xs] by blast
qed

lemma tidy_no_newline: "tidy l \<Longrightarrow> 10 \<notin> set l"
  using linebreak_simps(1) by (auto simp: tidy_def)

lemma join_tidy:
  assumes "\<forall>l\<in>set ls. tidy l"
  shows "\<not> sublist [10, 10] (join [10] ls) \<and>
         (ls \<noteq> [] \<longrightarrow> join [10] ls \<noteq> [] \<and> hd (join [10] ls) \<noteq> 10 \<and> last (join [10] ls) \<noteq> 10)"
  using assms
proof (induction "[10::nat]" ls rule: join.induct)
  case 1
  show ?case by simp
next
  case (2 x)
  then have "tidy x" by simp
  then have x10: "10 \<notin> set x" and xne: "x \<noteq> []" by (simp_all add: tidy_no_newline tidy_def)
  have "\<not> sublist [10, 10] x" using x10 set_mono_sublist [of "[10, 10]" x] by auto
  moreover have "hd x \<noteq> 10" using x10 xne hd_in_set by metis
  moreover have "last x \<noteq> 10" using x10 xne last_in_set by metis
  ultimately show ?case using xne by simp
next
  case (3 x y ys)
  then have x: "tidy x" and rest: "\<forall>l\<in>set (y # ys). tidy l" by simp_all
  from x have x10: "10 \<notin> set x" and xne: "x \<noteq> []" by (simp_all add: tidy_no_newline tidy_def)
  define r where "r = join [10] (y # ys)"
  from "3.hyps" [OF rest] have r: "\<not> sublist [10, 10] r" "r \<noteq> []" "hd r \<noteq> 10" "last r \<noteq> 10"
    by (simp_all add: r_def)
  have j: "join [10] (x # y # ys) = x @ 10 # r" by (simp add: r_def)
  have nox: "\<not> sublist [10, 10] x" using x10 set_mono_sublist [of "[10, 10]" x] by auto
  have lx: "last x \<noteq> 10" using x10 xne last_in_set by metis
  have hx: "hd x \<noteq> 10" using x10 xne hd_in_set by metis
  have "\<not> prefix [10, 10] (10 # r)" using r(2,3) by (cases r) auto
  then have "\<not> sublist [10, 10] (10 # r)" using r(1) by (simp add: sublist_Cons_right)
  then have 1: "\<not> sublist [10, 10] (x @ 10 # r)"
    using nox lx xne by (simp add: sublist2_append)
  have 2: "hd (x @ 10 # r) \<noteq> 10" using xne hx by simp
  have 3: "last (x @ 10 # r) \<noteq> 10" using r(2,4) by simp
  show ?case unfolding j using 1 2 3 by simp
qed

text \<open>
  C10: every output line is non-empty and neither begins nor ends with a white space
  character, and holds no newline; so the returned string, the output lines joined by
  single newlines, has no two newlines in a row and neither begins nor ends with one.
\<close>

theorem output_lines_shape:
  "\<exists>ls. format_lines (splitlines s) = Inr ls \<and> format_shader s = Inr (join NL ls) \<and>
        (\<forall>l\<in>set ls. l \<noteq> [] \<and> \<not> is_space (hd l) \<and> \<not> is_space (last l) \<and> 10 \<notin> set l) \<and>
        \<not> sublist (NL @ NL) (join NL ls) \<and> \<not> prefix NL (join NL ls) \<and>
        \<not> suffix NL (join NL ls)"
proof -
  define ls where "ls = final_lines (foldl next_state init_state (splitlines s))"
  have t: "\<forall>l\<in>set ls. tidy l" unfolding ls_def by (rule format_lines_tidy)
  then have a: "\<forall>l\<in>set ls. l \<noteq> [] \<and> \<not> is_space (hd l) \<and> \<not> is_space (last l) \<and> 10 \<notin> set l"
    using tidy_no_newline by (auto simp: tidy_def)
  have b: "\<not> sublist (NL @ NL) (join NL ls) \<and> \<not> prefix NL (join NL ls) \<and>
        \<not> suffix NL (join NL ls)"
  proof (cases "ls = []")
    case True
    then show ?thesis by (simp add: NL_def)
  next
    case False
    with join_tidy [OF t] show ?thesis by (simp add: NL_def prefix_single suffix_single)
  qed
  have c: "format_lines (splitlines s) = Inr ls \<and> format_shader s = Inr (join NL ls)"
    by (simp add: format_lines_eq format_shader_eq ls_def)
  from a b c show ?thesis by blast
qed

text \<open>Indented code around a directive, with blank lines and a trailing newline.\<close>

theorem output_lines_shape_witness:
  "format_shader (str ''  a;  '' @ NL @ NL @ str '' #x '' @ NL @ str ''b; // c'' @ NL)
     = Inr (str ''a;'' @ NL @ str ''#x'' @ NL @ str ''b;'') \<and>
   \<not> sublist (NL @ NL) (str ''a;'' @ NL @ str ''#x'' @ NL @ str ''b;'')"
proof -
  have 1: "format_shader (str ''  a;  '' @ NL @ NL @ str '' #x '' @ NL @ str ''b; // c'' @ NL)
     = Inr (str ''a;'' @ NL @ str ''#x'' @ NL @ str ''b;'')"
    by (simp add: eval_defs)
  from output_lines_shape [of "str ''  a;  '' @ NL @ NL @ str '' #x '' @ NL @ str ''b; // c'' @ NL"]
  show ?thesis unfolding 1 by auto
qed

section \<open>Directives\<close>

lemma not_directive_append:
  "\<not> is_directive b \<Longrightarrow> \<not> is_directive c \<Longrightarrow> \<not> is_directive (b @ c)"
  by (cases b) (auto simp: is_directive_def startswith_def str_simps)



section \<open>Minified text\<close>

lemma cut_at_none: "\<not> sublist sep s \<Longrightarrow> cut_at sep s = s"
  by (induction s) (auto simp: sublist_Cons_right)

lemma strip_fixed:
  assumes "strip l = l"
  shows "lstrip l = l" and "rstrip l = l"
proof -
  have "length (rstrip (lstrip l)) \<le> length (lstrip l)"
    using length_dropWhile_le [of is_space "rev (lstrip l)"] by (simp add: rstrip_def)
  moreover have "length (lstrip l) \<le> length l"
    by (simp add: lstrip_def length_dropWhile_le)
  ultimately have "length (dropWhile is_space l) = length l"
    using assms by (simp add: strip_def lstrip_def)
  moreover have "l = takeWhile is_space l @ dropWhile is_space l" by simp
  ultimately have "takeWhile is_space l = []"
    by (metis length_append add_cancel_right_left length_0_conv add.commute)
  then have "dropWhile is_space l = l"
    by (metis append_Nil takeWhile_dropWhile_id)
  then show "lstrip l = l" by (simp add: lstrip_def)
  with assms show "rstrip l = l" by (simp add: strip_def)
qed

lemma code_line_clean:
  assumes "l \<noteq> []" and "strip l = l"
    and "\<not> sublist (str ''//'') l"
  shows "code_line l = Some l"
proof -
  have "\<not> startswith l (str ''//'')"
    using assms(3) by (auto simp: startswith_def)
  then show ?thesis
    using assms by (simp add: code_line_def strip_fixed cut_at_none)
qed

lemma next_state_clean:
  assumes "\<not> in_multiline_comment st" and "l \<noteq> []" and "strip l = l"
    and "\<not> sublist (str ''//'') l" and "\<not> sublist (str ''/*'') l"
  shows "next_state st l = push_line st l"
proof -
  have "st\<lparr>in_multiline_comment := False\<rparr> = st" using assms(1) by simp
  then show ?thesis using assms
    by (simp add: next_state_outside detect_none code_line_clean)
qed

lemma foldl_clean:
  assumes "\<not> in_multiline_comment st"
    and "\<forall>l\<in>set ls. l \<noteq> [] \<and> strip l = l \<and>
            \<not> sublist (str ''//'') l \<and> \<not> sublist (str ''/*'') l"
    and "no_adjacent_code ls"
    and "buffer_line st = [] \<or> ls = [] \<or> is_directive (hd ls)"
  shows "final_lines (foldl next_state st ls) = final_lines st @ ls"
  using assms
proof (induction ls arbitrary: st)
  case Nil
  then show ?case by simp
next
  case (Cons l ls)
  from Cons.prems(1,2) have ns: "next_state st l = push_line st l"
    by (intro next_state_clean) simp_all
  have flag: "\<not> in_multiline_comment (push_line st l)" using Cons.prems(1) by simp
  from Cons.prems(2) have rest: "\<forall>l\<in>set ls. l \<noteq> [] \<and> strip l = l \<and>
            \<not> sublist (str ''//'') l \<and> \<not> sublist (str ''/*'') l" by simp
  from Cons.prems(3) have adj: "no_adjacent_code ls" by (cases ls) simp_all
  show ?case
  proof (cases "is_directive l")
    case True
    then have st': "push_line st l = st\<lparr>output_lines := final_lines st @ [l], buffer_line := []\<rparr>"
      by (simp add: push_line_def is_directive_def)
    then have "buffer_line (push_line st l) = []" by simp
    with Cons.IH [OF flag rest adj] have
      "final_lines (foldl next_state (push_line st l) ls) = final_lines (push_line st l) @ ls"
      by simp
    moreover have "final_lines (push_line st l) = final_lines st @ [l]"
      unfolding st' by (simp add: final_lines_def)
    ultimately show ?thesis by (simp add: ns)
  next
    case False
    with Cons.prems(4) have buf: "buffer_line st = []" by simp
    from False have st': "push_line st l = st\<lparr>buffer_line := buffer_line st @ l\<rparr>"
      by (simp add: push_line_def is_directive_def)
    from Cons.prems(2) have "l \<noteq> []" by simp
    then have fl: "final_lines (push_line st l) = final_lines st @ [l]"
      unfolding st' using buf by (simp add: final_lines_def)
    have "ls = [] \<or> is_directive (hd ls)"
      using Cons.prems(3) False by (cases ls) simp_all
    with Cons.IH [OF flag rest adj] have
      "final_lines (foldl next_state (push_line st l) ls) = final_lines (push_line st l) @ ls"
      by blast
    with fl show ?thesis by (simp add: ns)
  qed
qed

lemma minified_fixed:
  assumes "minified s"
  shows "format_shader s = Inr s"
proof -
  define ls where "ls = splitlines s"
  from assms have s: "s = join NL ls"
    and clean: "\<forall>l\<in>set ls. l \<noteq> [] \<and> strip l = l \<and>
            \<not> sublist (str ''//'') l \<and> \<not> sublist (str ''/*'') l"
    and adj: "no_adjacent_code ls"
    by (simp_all add: minified_def ls_def Let_def)
  have "final_lines (foldl next_state init_state ls) = final_lines init_state @ ls"
    using clean adj by (intro foldl_clean) (simp_all add: init_state_def)
  then have "final_lines (foldl next_state init_state ls) = ls"
    by (simp add: final_lines_def init_state_def)
  then have "format_shader s = Inr (join NL ls)"
    by (simp add: format_shader_eq ls_def)
  with s show ?thesis by simp
qed

lemma tidy_strip: "tidy l \<Longrightarrow> strip l = l"
proof -
  assume t: "tidy l"
  then obtain x xs where l: "l = x # xs" and x: "\<not> is_space x"
    by (cases l) (auto simp: tidy_def)
  from t have "rev l \<noteq> []" and "\<not> is_space (hd (rev l))"
    by (simp_all add: tidy_def hd_rev)
  then have "dropWhile is_space (rev l) = rev l" by (cases "rev l") auto
  then show ?thesis using l x by (simp add: strip_def lstrip_def rstrip_def)
qed

lemma splitlines_join:
  assumes "\<forall>l\<in>set ls. tidy l"
  shows "splitlines (join [10] ls) = ls"
  using assms
proof (induction "[10::nat]" ls rule: join.induct)
  case 1
  show ?case by (simp add: splitlines_def)
next
  case (2 x)
  then have "x \<noteq> []" and nb: "\<forall>c\<in>set x. \<not> is_linebreak c" by (simp_all add: tidy_def)
  from splitlines_from_append [OF nb, of "[]" "[]"] \<open>x \<noteq> []\<close>
  show ?case by (simp add: splitlines_def)
next
  case (3 x y ys)
  then have nb: "\<forall>c\<in>set x. \<not> is_linebreak c" and rest: "\<forall>l\<in>set (y # ys). tidy l"
    by (simp_all add: tidy_def)
  from splitlines_from_append [OF nb, of "[]" "10 # join [10] (y # ys)"] "3.hyps" [OF rest]
  show ?case by (simp add: splitlines_def linebreak_simps)
qed

lemma sublist_join: "l \<in> set ls \<Longrightarrow> sublist l (join sep ls)"
proof (induction sep ls rule: join.induct)
  case (3 sep x y ys)
  show ?case
  proof (cases "l = x")
    case True
    then show ?thesis by simp
  next
    case False
    with 3 have "sublist l (join sep (y # ys))" by simp
    then obtain p q where "join sep (y # ys) = p @ l @ q" unfolding sublist_def by blast
    then have "join sep (x # y # ys) = (x @ sep @ p) @ l @ q" by simp
    then show ?thesis unfolding sublist_def by blast
  qed
qed simp_all

lemma sublist_trans: "sublist a b \<Longrightarrow> sublist b c \<Longrightarrow> sublist a c"
proof -
  assume "sublist a b" and "sublist b c"
  then obtain p q p' q' where "b = p @ a @ q" and "c = p' @ b @ q'"
    unfolding sublist_def by blast
  then have "c = (p' @ p) @ a @ (q @ q')" by simp
  then show ?thesis unfolding sublist_def by blast
qed

lemma no_adjacent_code_snoc:
  "no_adjacent_code (xs @ [y]) \<longleftrightarrow>
     no_adjacent_code xs \<and> (xs = [] \<or> is_directive (last xs) \<or> is_directive y)"
  by (induction xs rule: no_adjacent_code.induct) auto

lemma push_line_runs:
  assumes "runs_state st" and "c \<noteq> []"
  shows "runs_state (push_line st c)"
proof (cases "is_directive c")
  case True
  then have st': "push_line st c = st\<lparr>output_lines := final_lines st @ [c], buffer_line := []\<rparr>"
    by (simp add: push_line_def is_directive_def)
  have "no_adjacent_code (final_lines st @ [c])"
    using assms(1) True
    by (auto simp: runs_state_def final_lines_def no_adjacent_code_snoc)
  then show ?thesis
    unfolding st' using True
    by (simp add: runs_state_def is_directive_def startswith_def str_simps)
next
  case False
  with assms(1) have "\<not> is_directive (buffer_line st @ c)"
    by (intro not_directive_append) (simp_all add: runs_state_def)
  with False assms(1) show ?thesis
    by (simp add: push_line_def is_directive_def runs_state_def)
qed

lemma next_state_runs:
  assumes "runs_state st"
  shows "runs_state (next_state st l)"
proof (cases "handle_multiline (in_multiline_comment st) l")
  case None
  with assms show ?thesis by (simp add: next_state_def)
next
  case (Some p)
  obtain f1 l1 where p: "p = (f1, l1)" by (cases p)
  obtain f2 l2 where d: "detect_multiline f1 l1 = (f2, l2)" by (cases "detect_multiline f1 l1")
  have flag: "runs_state (st\<lparr>in_multiline_comment := f2\<rparr>)"
    using assms by (simp add: runs_state_def)
  show ?thesis
  proof (cases "code_line l2")
    case None
    with Some p d flag show ?thesis by (simp add: next_state_def)
  next
    case c: (Some c)
    from code_line_shape [OF c] have "c \<noteq> []" by simp
    with flag have "runs_state (push_line (st\<lparr>in_multiline_comment := f2\<rparr>) c)"
      by (rule push_line_runs)
    with Some p d c show ?thesis by (simp add: next_state_def)
  qed
qed

lemma foldl_runs: "runs_state st \<Longrightarrow> runs_state (foldl next_state st ls)"
  by (induction ls arbitrary: st) (simp_all add: next_state_runs)

lemma final_lines_runs: "runs_state st \<Longrightarrow> no_adjacent_code (final_lines st)"
  by (auto simp: runs_state_def final_lines_def no_adjacent_code_snoc)

lemma output_minified:
  assumes "format_shader s = Inr out"
    and "\<not> sublist (str ''//'') out" and "\<not> sublist (str ''/*'') out"
  shows "minified out"
proof -
  define ls where "ls = final_lines (foldl next_state init_state (splitlines s))"
  from assms(1) have out: "out = join [10] ls" by (simp add: format_shader_eq ls_def NL_def)
  have t: "\<forall>l\<in>set ls. tidy l" unfolding ls_def by (rule format_lines_tidy)
  then have sp: "splitlines out = ls" unfolding out by (rule splitlines_join)
  have "runs_state init_state"
    by (simp add: runs_state_def init_state_def is_directive_def startswith_def str_simps)
  then have adj: "no_adjacent_code ls"
    unfolding ls_def by (intro final_lines_runs foldl_runs)
  have "\<not> sublist (str ''//'') l \<and> \<not> sublist (str ''/*'') l" if "l \<in> set ls" for l
  proof -
    from that have "sublist l out" unfolding out by (rule sublist_join)
    with assms(2,3) show ?thesis using sublist_trans by blast
  qed
  with t have "\<forall>l\<in>set ls. l \<noteq> [] \<and> strip l = l \<and>
                   \<not> sublist (str ''//'') l \<and> \<not> sublist (str ''/*'') l"
    by (auto simp: tidy_strip tidy_def)
  with adj sp out show ?thesis by (simp add: minified_def NL_def)
qed

text \<open>
  C7, amended: a minified text (lines separated by single newlines with none at the end,
  no blank line, no white space at either end of a line, neither \<open>//\<close> nor \<open>/*\<close>, no
  two code lines in a row) is returned unchanged; and when the result of \<open>format_shader\<close>
  holds neither \<open>//\<close> nor \<open>/*\<close>, it is such a text, so minifying it again returns it
  unchanged.
\<close>

theorem minified_idempotent:
  "(minified s \<longrightarrow> format_shader s = Inr s) \<and>
   (format_shader s = Inr out \<and> \<not> sublist (str ''//'') out \<and> \<not> sublist (str ''/*'') out
      \<longrightarrow> minified out \<and> format_shader out = Inr out)"
  using minified_fixed output_minified by blast

text \<open>The third scenario of the specification, and the result of minifying two lines.\<close>

theorem minified_idempotent_witness:
  "format_shader (str ''#define PI 3.14'' @ NL @ str ''float a = PI;'' @ NL @ str ''#define E 2.71'')
     = Inr (str ''#define PI 3.14'' @ NL @ str ''float a = PI;'' @ NL @ str ''#define E 2.71'') \<and>
   format_shader (str ''float a = 1;float b = 2;'') = Inr (str ''float a = 1;float b = 2;'')"
proof -
  have 1: "minified (str ''#define PI 3.14'' @ NL @ str ''float a = PI;'' @ NL @ str ''#define E 2.71'')"
    by (simp add: minified_def eval_defs is_directive_def sublist_Cons_right)
  have 2: "format_shader (str ''float a = 1;'' @ NL @ str ''float b = 2;'')
      = Inr (str ''float a = 1;float b = 2;'')"
    by (simp add: eval_defs)
  have 3: "\<not> sublist (str ''//'') (str ''float a = 1;float b = 2;'')"
    and 4: "\<not> sublist (str ''/*'') (str ''float a = 1;float b = 2;'')"
    by (simp_all add: str_def sublist_Cons_right)
  from minified_idempotent [of "str ''#define PI 3.14'' @ NL @ str ''float a = PI;'' @ NL @ str ''#define E 2.71''"] 1
  have a: "format_shader (str ''#define PI 3.14'' @ NL @ str ''float a = PI;'' @ NL @ str ''#define E 2.71'')
     = Inr (str ''#define PI 3.14'' @ NL @ str ''float a = PI;'' @ NL @ str ''#define E 2.71'')"
    by blast
  from minified_idempotent [of "str ''float a = 1;'' @ NL @ str ''float b = 2;''"
      "str ''float a = 1;float b = 2;''"] 2 3 4
  have "format_shader (str ''float a = 1;float b = 2;'') = Inr (str ''float a = 1;float b = 2;'')"
    by blast
  with a show ?thesis by blast
qed

text \<open>
  C7 as stated fails: the one line \<open>  float a;\<close> has no comment, no directive and no
  blank line and is a single code run, and \<open>format_shader\<close> removes its indentation.
\<close>

theorem minified_counterexample:
  "splitlines (str ''  float a;'') = [str ''  float a;''] \<and>
   strip (str ''  float a;'') \<noteq> [] \<and>
   \<not> sublist (str ''//'') (str ''  float a;'') \<and>
   \<not> sublist (str ''/*'') (str ''  float a;'') \<and>
   \<not> sublist (str ''*/'') (str ''  float a;'') \<and>
   format_shader (str ''  float a;'') = Inr (str ''float a;'') \<and>
   format_shader (str ''  float a;'') \<noteq> Inr (str ''  float a;'')"
  by (simp add: eval_defs sublist_Cons_right)

section \<open>Comment regions\<close>

lemma first_occurrence:
  assumes "sublist [x, y] s" and "x \<noteq> y"
  shows "\<exists>a b. s = a @ [x, y] @ b \<and> \<not> sublist [x, y] a"
  using assms(1)
proof (induction s)
  case Nil
  then show ?case by simp
next
  case (Cons c cs)
  show ?case
  proof (cases "prefix [x, y] (c # cs)")
    case True
    then obtain b where "c # cs = [x, y] @ b" unfolding prefix_def by blast
    then have "c # cs = [] @ [x, y] @ b \<and> \<not> sublist [x, y] []" by simp
    then show ?thesis by blast
  next
    case False
    with Cons.prems have "sublist [x, y] cs" unfolding sublist_Cons_right [of _ c cs] by blast
    from Cons.IH [OF this] obtain a b where ab: "cs = a @ [x, y] @ b" "\<not> sublist [x, y] a"
      by blast
    have "\<not> prefix [x, y] (c # a)"
    proof
      assume p: "prefix [x, y] (c # a)"
      then obtain z where "c # a = [x, y] @ z" unfolding prefix_def by blast
      then have "c # cs = [x, y] @ (z @ [x, y] @ b)" using ab(1) by simp
      then have "prefix [x, y] (c # cs)" unfolding prefix_def by blast
      with False show False by blast
    qed
    with ab(2) have "\<not> sublist [x, y] (c # a)" by (simp add: sublist_Cons_right)
    moreover have "c # cs = (c # a) @ [x, y] @ b" using ab(1) by simp
    ultimately show ?thesis by blast
  qed
qed

lemma uncommented_inside_none:
  "\<not> sublist (str ''*/'') s \<Longrightarrow> uncommented True s = (True, [])"
  by (induction s) (auto simp: sublist_Cons_right)

lemma not_prefix_before:
  assumes "x \<noteq> y" and "\<not> sublist [x, y] (c # a)"
  shows "\<not> prefix [x, y] (c # a @ x # y # b)"
proof (cases a)
  case Nil
  with assms(1) show ?thesis by auto
next
  case (Cons d ds)
  with assms(2) show ?thesis by (auto simp: sublist_Cons_right)
qed

lemma uncommented_inside_close:
  "\<not> sublist (str ''*/'') b \<Longrightarrow> uncommented True (b @ str ''*/'' @ c) = uncommented False c"
proof (induction b)
  case Nil
  show ?case by (simp add: str_simps)
next
  case (Cons d ds)
  then have 1: "\<not> sublist [42, 47] (d # ds)" and 2: "\<not> sublist (str ''*/'') ds"
    by (simp_all add: str_simps sublist_Cons_right)
  have "\<not> prefix [42, 47] (d # ds @ 42 # 47 # c)"
    using 1 by (intro not_prefix_before) simp_all
  then have "uncommented True ((d # ds) @ str ''*/'' @ c) = uncommented True (ds @ str ''*/'' @ c)"
    by (simp only: append_Cons append_Nil uncommented.simps str_simps if_False)
  with Cons.IH [OF 2] show ?case by simp
qed

lemma uncommented_outside_none:
  "\<not> sublist (str ''/*'') s \<Longrightarrow> uncommented False s = (False, cut_at (str ''//'') s)"
  by (induction s) (auto simp: sublist_Cons_right)

lemma uncommented_outside_open:
  assumes "\<not> sublist (str ''/*'') a" and "\<not> sublist (str ''//'') (a @ [47])"
  shows "uncommented False (a @ str ''/*'' @ r) =
           (case uncommented True r of (f, t) \<Rightarrow> (f, a @ t))"
  using assms
proof (induction a)
  case Nil
  show ?case by (simp add: str_simps split: prod.splits)
next
  case (Cons d ds)
  then have 1: "\<not> sublist [47, 42] (d # ds)" and 2: "\<not> sublist (str ''/*'') ds"
    and 3: "\<not> sublist (str ''//'') (ds @ [47])" and 4: "\<not> prefix [47, 47] (d # ds @ [47])"
    by (simp_all add: str_simps sublist_Cons_right)
  have a: "\<not> prefix [47, 42] (d # ds @ 47 # 42 # r)"
    using 1 by (intro not_prefix_before) simp_all
  have b: "\<not> prefix [47, 47] (d # ds @ 47 # 42 # r)"
    using 4 by (cases ds) auto
  from a b have "uncommented False ((d # ds) @ str ''/*'' @ r) =
      (case uncommented False (ds @ str ''/*'' @ r) of (f, t) \<Rightarrow> (f, d # t))"
    by (simp only: append_Cons append_Nil uncommented.simps str_simps if_False)
  with Cons.IH [OF 2 3] show ?case by (simp split: prod.splits)
qed

lemma cut_at_append:
  "\<not> sublist (str ''//'') (a @ [47]) \<Longrightarrow>
   cut_at (str ''//'') (a @ c) = a @ cut_at (str ''//'') c"
proof (induction a)
  case Nil
  show ?case by simp
next
  case (Cons d ds)
  then have 3: "\<not> sublist (str ''//'') (ds @ [47])" and 4: "\<not> prefix [47, 47] (d # ds @ [47])"
    by (simp_all add: str_simps sublist_Cons_right)
  have "\<not> prefix [47, 47] (d # ds @ c)"
  proof (cases ds)
    case Nil
    with 4 show ?thesis by auto
  next
    case (Cons e es)
    with 4 show ?thesis by auto
  qed
  then have "cut_at (str ''//'') ((d # ds) @ c) = d # cut_at (str ''//'') (ds @ c)"
    by (simp only: append_Cons cut_at.simps str_simps if_False)
  with Cons.IH [OF 3] show ?case by simp
qed

lemma cut_at_lstrip: "cut_at (str ''//'') (lstrip l) = lstrip (cut_at (str ''//'') l)"
proof (induction l)
  case Nil
  show ?case by (simp add: lstrip_def)
next
  case (Cons c cs)
  show ?case
  proof (cases "is_space c")
    case True
    then have "c \<noteq> 47" using slash_not_space by auto
    with True Cons show ?thesis by (simp add: lstrip_def str_simps)
  next
    case False
    then show ?thesis by (simp add: lstrip_def)
  qed
qed

lemma cut_at_Nil: "cut_at sep s = [] \<longleftrightarrow> s = [] \<or> prefix sep s"
  by (cases s) auto

lemma strip_Nil: "strip s = [] \<longleftrightarrow> lstrip s = []"
proof (cases "lstrip s")
  case Nil
  then show ?thesis by (simp add: strip_def rstrip_def)
next
  case (Cons x xs)
  have "\<not> is_space (hd (dropWhile is_space s))"
    by (rule hd_dropWhile) (use Cons in \<open>simp add: lstrip_def\<close>)
  with Cons have "\<not> is_space x" by (simp add: lstrip_def)
  from rstrip_shape [OF this, of xs] Cons show ?thesis by (simp add: strip_def)
qed

lemma code_line_cut:
  "code_line l =
     (if strip (cut_at (str ''//'') l) = [] then None
      else Some (strip (cut_at (str ''//'') l)))"
proof -
  have "strip (cut_at (str ''//'') l) = rstrip (cut_at (str ''//'') (lstrip l))"
    by (simp add: strip_def cut_at_lstrip)
  moreover have "strip (cut_at (str ''//'') l) = [] \<longleftrightarrow>
      strip l = [] \<or> startswith (lstrip l) (str ''//'')"
    by (simp add: strip_Nil cut_at_lstrip [symmetric] cut_at_Nil startswith_def)
  ultimately show ?thesis by (simp add: code_line_def)
qed

section \<open>Unterminated block comments\<close>

lemma next_state_open_after_close:
  assumes "in_multiline_comment st" and "\<not> sublist (str ''*/'') x"
    and "\<not> sublist (str ''/*'') a" and "\<not> sublist (str ''*/'') b"
  shows "next_state st ((x @ str ''*/'' @ a) @ str ''/*'' @ b)
           = (next_state st (x @ str ''*/'' @ a))\<lparr>in_multiline_comment := True\<rparr>"
proof -
  have 1: "handle_multiline True (x @ str ''*/'' @ a @ str ''/*'' @ b)
             = Some (False, a @ str ''/*'' @ b)"
    using assms(2) by (rule handle_close)
  have 2: "handle_multiline True (x @ str ''*/'' @ a) = Some (False, a)"
    using assms(2) by (rule handle_close)
  show ?thesis
    using assms(1,3,4)
    by (simp add: next_state_def 1 2 detect_open detect_none push_line_set_flag
        split: option.splits)
qed

lemma next_state_open_line:
  assumes "(\<not> in_multiline_comment st \<and> p = a) \<or>
           (in_multiline_comment st \<and> (\<exists>x. p = x @ str ''*/'' @ a \<and> \<not> sublist (str ''*/'') x))"
    and "\<not> sublist (str ''/*'') a" and "\<not> sublist (str ''*/'') b"
  shows "next_state st (p @ str ''/*'' @ b) = (next_state st p)\<lparr>in_multiline_comment := True\<rparr>"
  using assms next_state_open next_state_open_after_close by blast

section \<open>One detection per line\<close>

lemma after_close_None: "after_close s = None \<longleftrightarrow> \<not> sublist (str ''*/'') s"
  by (induction s) (auto simp: sublist_Cons_right str_simps)

lemma after_close_Some:
  "after_close s = Some r \<Longrightarrow> \<exists>x. s = x @ str ''*/'' @ r \<and> \<not> sublist (str ''*/'') x"
proof (induction s)
  case Nil
  then show ?case by simp
next
  case (Cons c cs)
  show ?case
  proof (cases "prefix (str ''*/'') (c # cs)")
    case True
    with Cons.prems have "c # cs = [] @ str ''*/'' @ r" by (cases cs) (auto simp: str_simps)
    moreover have "\<not> sublist (str ''*/'') []" by (simp add: str_simps)
    ultimately show ?thesis by blast
  next
    case False
    with Cons.prems have "after_close cs = Some r" by simp
    from Cons.IH [OF this] obtain x where x: "cs = x @ str ''*/'' @ r" "\<not> sublist (str ''*/'') x"
      by blast
    have "\<not> prefix (str ''*/'') (c # x)"
    proof
      assume "prefix (str ''*/'') (c # x)"
      then have "prefix (str ''*/'') ((c # x) @ str ''*/'' @ r)" by (rule prefix_prefix)
      with False x(1) show False by simp
    qed
    with x(2) have "\<not> sublist (str ''*/'') (c # x)"
      by (simp add: sublist_Cons_right str_simps)
    moreover have "c # cs = (c # x) @ str ''*/'' @ r" using x(1) by simp
    ultimately show ?thesis by blast
  qed
qed

lemma opens_first_uncommented:
  "\<not> opens_first r \<Longrightarrow> uncommented False r = (False, cut_at (str ''//'') r)"
  by (induction r) (auto split: if_splits)

lemma first_open_closed_append:
  "\<not> sublist (str ''/*'') u \<Longrightarrow>
   first_open_closed (u @ str ''/*'' @ b) = (after_close b \<noteq> None)"
proof (induction u)
  case Nil
  show ?case by (simp add: str_simps)
next
  case (Cons d ds)
  then have 1: "\<not> sublist [47, 42] (d # ds)" and 2: "\<not> sublist (str ''/*'') ds"
    by (simp_all add: str_simps sublist_Cons_right)
  have "\<not> prefix [47, 42] (d # ds @ 47 # 42 # b)"
    using 1 by (intro not_prefix_before) simp_all
  then have "first_open_closed ((d # ds) @ str ''/*'' @ b) = first_open_closed (ds @ str ''/*'' @ b)"
    by (simp only: append_Cons append_Nil first_open_closed.simps str_simps if_False)
  with Cons.IH [OF 2] show ?case by simp
qed

lemma unmarked_head: "unmarked a (c # x) = unmarked a [c]"
proof (induction a)
  case Nil
  show ?case by simp
next
  case (Cons d ds)
  show ?case
  proof (cases ds)
    case Nil
    then show ?thesis by (simp add: str_simps)
  next
    case (Cons e es)
    with Cons.IH show ?thesis by (simp add: str_simps)
  qed
qed

lemma unmarked_slash:
  "unmarked a [47] \<Longrightarrow> \<not> sublist (str ''/*'') (a @ [47]) \<and> \<not> sublist (str ''//'') (a @ [47])"
  by (induction a) (auto simp: sublist_Cons_right str_simps)

lemma unmarked_end:
  "unmarked a [] \<Longrightarrow> \<not> sublist (str ''/*'') a \<and> \<not> sublist (str ''//'') a"
  by (induction a) (auto simp: sublist_Cons_right str_simps)

lemma first_marker:
  "\<exists>a m. r = a @ m \<and> unmarked a m \<and>
         (m = [] \<or> prefix (str ''//'') m \<or> prefix (str ''/*'') m)"
proof (induction r)
  case Nil
  have "[] = [] @ ([]::ustr) \<and> unmarked [] []" by simp
  then show ?case by blast
next
  case (Cons c cs)
  show ?case
  proof (cases "prefix (str ''//'') (c # cs) \<or> prefix (str ''/*'') (c # cs)")
    case True
    have "c # cs = [] @ (c # cs) \<and> unmarked [] (c # cs)" by simp
    with True show ?thesis by blast
  next
    case False
    from Cons obtain a m where am: "cs = a @ m" "unmarked a m"
      "m = [] \<or> prefix (str ''//'') m \<or> prefix (str ''/*'') m" by blast
    from False am(1,2) have "c # cs = (c # a) @ m \<and> unmarked (c # a) m" by simp
    with am(3) show ?thesis by blast
  qed
qed

lemma text_ok_unmarked: "unmarked a m \<Longrightarrow> text_ok (a @ m) = text_ok m"
  by (induction a) simp_all

lemma flag_ok_unmarked: "unmarked a m \<Longrightarrow> flag_ok (a @ m) = flag_ok m"
  by (induction a) simp_all

lemma uncommented_outside_line:
  assumes "\<not> sublist (str ''/*'') a" and "\<not> sublist (str ''//'') (a @ [47])"
  shows "uncommented False (a @ str ''//'' @ q) = (False, a)"
  using assms
proof (induction a)
  case Nil
  show ?case by (simp add: str_simps)
next
  case (Cons d ds)
  then have 1: "\<not> sublist [47, 42] (d # ds)" and 2: "\<not> sublist (str ''/*'') ds"
    and 3: "\<not> sublist (str ''//'') (ds @ [47])" and 4: "\<not> prefix [47, 47] (d # ds @ [47])"
    by (simp_all add: str_simps sublist_Cons_right)
  have a: "\<not> prefix [47, 42] (d # ds @ 47 # 47 # q)"
  proof (cases ds)
    case Nil
    then show ?thesis by simp
  next
    case (Cons e es)
    with 1 show ?thesis by (auto simp: sublist_Cons_right)
  qed
  have b: "\<not> prefix [47, 47] (d # ds @ 47 # 47 # q)"
    using 4 by (cases ds) auto
  from a b have "uncommented False ((d # ds) @ str ''//'' @ q) =
      (case uncommented False (ds @ str ''//'' @ q) of (f, t) \<Rightarrow> (f, d # t))"
    by (simp only: append_Cons append_Nil uncommented.simps str_simps if_False)
  with Cons.IH [OF 2 3] show ?case by simp
qed

lemma detection_uncommented:
  assumes "text_ok r"
  shows "snd (uncommented False r) = cut_at (str ''//'') (snd (detect_multiline False r)) \<and>
         (flag_ok r \<longrightarrow> fst (uncommented False r) = fst (detect_multiline False r))"
proof -
  from first_marker [of r] obtain a m where r: "r = a @ m" and um: "unmarked a m"
    and m: "m = [] \<or> prefix (str ''//'') m \<or> prefix (str ''/*'') m" by blast
  from assms have ok: "text_ok m" unfolding r text_ok_unmarked [OF um] .
  have fl: "flag_ok r = flag_ok m" unfolding r by (rule flag_ok_unmarked [OF um])
  from m consider "m = []" | q where "m = 47 # 47 # q" | q where "m = 47 # 42 # q"
    by (auto simp: prefix_def str_simps)
  then show ?thesis
  proof cases
    case 1
    with um have "\<not> sublist (str ''/*'') a" "\<not> sublist (str ''//'') a"
      using unmarked_end by blast+
    then show ?thesis
      unfolding r 1 by (simp add: detect_none uncommented_outside_none cut_at_none)
  next
    case (2 q)
    from um have "unmarked a [47]" unfolding 2 unmarked_head [of a 47 "47 # q"] .
    from unmarked_slash [OF this]
    have na: "\<not> sublist (str ''/*'') (a @ [47])" and nb: "\<not> sublist (str ''//'') (a @ [47])"
      by simp_all
    from na have na': "\<not> sublist (str ''/*'') a" by (auto simp: sublist_append)
    have rq: "r = a @ str ''//'' @ q" by (simp add: r 2 str_simps)
    have lex: "uncommented False r = (False, a)"
      unfolding rq using na' nb by (rule uncommented_outside_line)
    have cut: "cut_at (str ''//'') (a @ str ''//'' @ z) = a" for z
      using cut_at_append [OF nb, of "str ''//'' @ z"] by (simp add: str_simps)
    have flm: "flag_ok m = first_open_closed (47 # q)" unfolding 2 by (simp add: str_simps)
    show ?thesis
    proof (cases "prefix (str ''/*'') (47 # q)")
      case True
      then obtain q' where q: "q = 42 # q'" by (auto simp: prefix_def str_simps)
      from ok obtain y where y: "after_close q' = Some y" and py: "prefix [47] y"
        unfolding 2 q by (auto simp: str_simps split: option.splits)
      from after_close_Some [OF y] obtain x where x: "q' = x @ str ''*/'' @ y"
        "\<not> sublist (str ''*/'') x" by blast
      from py obtain y' where y': "y = 47 # y'" by (auto simp: prefix_def)
      have "r = (a @ [47]) @ str ''/*'' @ x @ str ''*/'' @ y"
        by (simp add: r 2 q x(1) str_simps)
      then have dm: "detect_multiline False r = (False, (a @ [47]) @ y)"
        using detect_pair [OF na x(2)] by simp
      have e: "(a @ [47]) @ y = a @ str ''//'' @ y'" by (simp add: y' str_simps)
      have d: "detect_multiline False r = (False, a @ str ''//'' @ y')" using dm unfolding e .
      show ?thesis unfolding d lex by (simp add: cut)
    next
      case False
      show ?thesis
      proof (cases "sublist (str ''/*'') (47 # q)")
        case n: False
        from sublist2_append [of 47 42 "a @ [47]" "47 # q"] na n
        have "\<not> sublist [47, 42] ((a @ [47]) @ (47 # q))"
          by (simp add: str_simps)
        then have "\<not> sublist (str ''/*'') r" by (simp add: r 2 str_simps)
        then have d: "detect_multiline False r = (False, a @ str ''//'' @ q)"
          unfolding rq by (rule detect_none)
        show ?thesis unfolding d lex by (simp add: cut)
      next
        case True
        then obtain u b where u: "47 # q = u @ str ''/*'' @ b" and nu: "\<not> sublist (str ''/*'') u"
          using first_occurrence [of 47 42 "47 # q"] by (auto simp: str_simps)
        from u False obtain u' where u': "u = 47 # u'"
          by (cases u) (auto simp: str_simps)
        from sublist2_append [of 47 42 "a @ [47]" u] na nu
        have "\<not> sublist [47, 42] ((a @ [47]) @ u)"
          by (simp add: str_simps u')
        then have nau: "\<not> sublist (str ''/*'') (a @ 47 # u)" by (simp add: str_simps)
        have ru: "r = (a @ 47 # u) @ str ''/*'' @ b" using u by (simp add: r 2)
        have e: "(a @ 47 # u) @ z = a @ str ''//'' @ (u' @ z)" for z
          by (simp add: u' str_simps)
        have closed: "flag_ok m = (after_close b \<noteq> None)"
          unfolding flm u by (rule first_open_closed_append [OF nu])
        show ?thesis
        proof (cases "after_close b")
          case None
          then have nb': "\<not> sublist (str ''*/'') b" by (simp add: after_close_None)
          have "detect_multiline False r = (True, a @ 47 # u)"
            unfolding ru using nau nb' by (rule detect_open)
          moreover have "a @ 47 # u = a @ str ''//'' @ u'" using e [of "[]"] by simp
          ultimately have d: "detect_multiline False r = (True, a @ str ''//'' @ u')" by simp
          show ?thesis unfolding d lex using None by (simp add: cut fl closed)
        next
          case (Some y)
          from after_close_Some [OF Some] obtain x where x: "b = x @ str ''*/'' @ y"
            and nx: "\<not> sublist (str ''*/'') x" by blast
          have "detect_multiline False r = (False, (a @ 47 # u) @ y)"
            unfolding ru x using nau nx by (rule detect_pair)
          then have d: "detect_multiline False r = (False, a @ str ''//'' @ (u' @ y))"
            unfolding e .
          show ?thesis unfolding d lex by (simp add: cut)
        qed
      qed
    qed
  next
    case (3 q)
    from um have "unmarked a [47]" unfolding 3 unmarked_head [of a 47 "42 # q"] .
    from unmarked_slash [OF this]
    have na: "\<not> sublist (str ''/*'') (a @ [47])" and nb: "\<not> sublist (str ''//'') (a @ [47])"
      by simp_all
    from na have na': "\<not> sublist (str ''/*'') a" by (auto simp: sublist_append)
    from nb have nb': "\<not> sublist (str ''//'') a" by (auto simp: sublist_append)
    have rq: "r = a @ str ''/*'' @ q" by (simp add: r 3 str_simps)
    show ?thesis
    proof (cases "after_close q")
      case None
      then have nq: "\<not> sublist (str ''*/'') q" by (simp add: after_close_None)
      show ?thesis
        unfolding rq
        by (simp add: detect_open [OF na' nq] uncommented_outside_open [OF na' nb]
            uncommented_inside_none [OF nq] cut_at_none [OF nb'])
    next
      case (Some r')
      from after_close_Some [OF Some] obtain x where x: "q = x @ str ''*/'' @ r'"
        and nx: "\<not> sublist (str ''*/'') x" by blast
      from ok Some have "\<not> opens_first r'" unfolding 3 by (simp add: str_simps)
      then have lex: "uncommented False r' = (False, cut_at (str ''//'') r')"
        by (rule opens_first_uncommented)
      show ?thesis
        unfolding rq x
        by (simp add: detect_pair [OF na' nx] uncommented_outside_open [OF na' nb]
            uncommented_inside_close [OF nx] lex cut_at_append [OF nb])
    qed
  qed
qed

text \<open>The flag and the line that lines 37 to 57 leave, \<open>None\<close> for a skipped line.\<close>

lemma detectable_uncommented:
  assumes "detectable_text f l"
  shows "(case handle_multiline f l of
            None \<Rightarrow> uncommented f l = (f, [])
          | Some (f1, l1) \<Rightarrow>
              snd (uncommented f l) = cut_at (str ''//'') (snd (detect_multiline f1 l1)) \<and>
              (detectable_flag f l \<longrightarrow> fst (uncommented f l) = fst (detect_multiline f1 l1)))"
proof (cases f)
  case False
  with assms have "text_ok l" by (simp add: detectable_text_def)
  from detection_uncommented [OF this] False show ?thesis
    by (simp add: handle_outside detectable_flag_def)
next
  case True
  show ?thesis
  proof (cases "after_close l")
    case None
    then have "\<not> sublist (str ''*/'') l" by (simp add: after_close_None)
    with True show ?thesis by (simp add: handle_skip uncommented_inside_none)
  next
    case (Some r)
    from after_close_Some [OF Some] obtain x where l: "l = x @ str ''*/'' @ r"
      and x: "\<not> sublist (str ''*/'') x" by blast
    from assms True Some have "text_ok r" by (simp add: detectable_text_def)
    from detection_uncommented [OF this] True Some
    have "snd (uncommented False r) = cut_at (str ''//'') (snd (detect_multiline False r)) \<and>
         (detectable_flag f l \<longrightarrow> fst (uncommented False r) = fst (detect_multiline False r))"
      by (simp add: detectable_flag_def)
    with True show ?thesis
      unfolding l by (simp add: handle_close [OF x] uncommented_inside_close [OF x])
  qed
qed


lemma code_lines_single:
  assumes "detectable_text f l"
  shows "code_lines f [l] = filter (\<lambda>c. c \<noteq> []) [strip (snd (uncommented f l))]"
proof (cases "handle_multiline f l")
  case None
  with detectable_uncommented [OF assms] show ?thesis
    by (simp add: strip_def lstrip_def rstrip_def)
next
  case (Some p)
  obtain f1 l1 where p: "p = (f1, l1)" by (cases p)
  obtain f2 l2 where d: "detect_multiline f1 l1 = (f2, l2)" by (cases "detect_multiline f1 l1")
  from detectable_uncommented [OF assms] Some p d
  have "snd (uncommented f l) = cut_at (str ''//'') l2" by simp
  with Some p d show ?thesis by (simp add: code_line_cut)
qed

lemma code_lines_Cons:
  assumes "detectable_text f l" and "detectable_flag f l"
  shows "code_lines f (l # ls) = code_lines f [l] @ code_lines (fst (uncommented f l)) ls"
proof (cases "handle_multiline f l")
  case None
  with detectable_uncommented [OF assms(1)] show ?thesis by simp
next
  case (Some p)
  obtain f1 l1 where p: "p = (f1, l1)" by (cases p)
  obtain f2 l2 where d: "detect_multiline f1 l1 = (f2, l2)" by (cases "detect_multiline f1 l1")
  from detectable_uncommented [OF assms(1)] assms(2) Some p d
  have "fst (uncommented f l) = f2" by simp
  with Some p d show ?thesis by (simp split: option.splits)
qed

lemma code_lines_detectable:
  "detectable_lines f ls \<Longrightarrow>
   code_lines f ls = filter (\<lambda>c. c \<noteq> []) (map strip (uncommented_lines f ls))"
proof (induction ls arbitrary: f)
  case Nil
  show ?case by simp
next
  case (Cons l ls)
  then have l: "detectable_text f l" by simp
  show ?case
  proof (cases "ls = []")
    case True
    with code_lines_single [OF l] show ?thesis by (simp split: prod.splits)
  next
    case False
    with Cons.prems have fl: "detectable_flag f l"
      and rest: "detectable_lines (fst (uncommented f l)) ls" by simp_all
    from code_lines_Cons [OF l fl, of ls] code_lines_single [OF l] Cons.IH [OF rest]
    show ?thesis by (simp split: prod.splits)
  qed
qed

lemma push_line_assemble:
  "output_lines (push_line st c) @ assemble (buffer_line (push_line st c)) cs
     = output_lines st @ assemble (buffer_line st) (c # cs)"
  by (simp add: push_line_def is_directive_def final_lines_def)

lemma foldl_assemble:
  "final_lines (foldl next_state st ls)
     = output_lines st @ assemble (buffer_line st) (code_lines (in_multiline_comment st) ls)"
proof (induction ls arbitrary: st)
  case Nil
  show ?case by (simp add: final_lines_def)
next
  case (Cons l ls)
  show ?case
  proof (cases "handle_multiline (in_multiline_comment st) l")
    case None
    with Cons [of st] show ?thesis by (simp add: next_state_def)
  next
    case (Some p)
    obtain f1 l1 where p: "p = (f1, l1)" by (cases p)
    obtain f2 l2 where d: "detect_multiline f1 l1 = (f2, l2)" by (cases "detect_multiline f1 l1")
    show ?thesis
    proof (cases "code_line l2")
      case None
      with Some p d Cons [of "st\<lparr>in_multiline_comment := f2\<rparr>"] show ?thesis
        by (simp add: next_state_def)
    next
      case c: (Some c)
      have ns: "next_state st l = push_line (st\<lparr>in_multiline_comment := f2\<rparr>) c"
        using Some p d c by (simp add: next_state_def)
      have cl: "code_lines (in_multiline_comment st) (l # ls) = c # code_lines f2 ls"
        using Some p d c by simp
      from Cons [of "push_line (st\<lparr>in_multiline_comment := f2\<rparr>) c"]
        push_line_assemble [of "st\<lparr>in_multiline_comment := f2\<rparr>" c "code_lines f2 ls"]
      show ?thesis unfolding cl by (simp add: ns)
    qed
  qed
qed

lemma format_lines_assemble: "format_lines ls = Inr (assemble [] (code_lines False ls))"
  by (simp add: format_lines_eq foldl_assemble init_state_def)

text \<open>
  C1, amended: when the one detection of a block comment per line suffices on the lines
  of the input (for the text on every line, for the flag on every line but the last),
  the output is made of the text outside the comment regions alone: of each line that
  text without leading and trailing white space, put together as the specification says
  (directives on lines of their own, other code joined). Text after an unterminated
  \<open>/*\<close> counts as comment.
\<close>

theorem comments_removed:
  assumes "detectable_lines False (splitlines s)"
  shows "format_shader s = Inr (join NL (assemble [] (code_outside_comments (splitlines s))))"
proof -
  have "code_lines False (splitlines s) = code_outside_comments (splitlines s)"
    unfolding code_outside_comments_def using assms by (rule code_lines_detectable)
  then show ?thesis by (simp add: format_shader_def format_lines_assemble)
qed

lemmas scan_defs =
  detectable_text_def detectable_flag_def code_outside_comments_def is_directive_def strip_def lstrip_def rstrip_def
  startswith_def is_space_def

text \<open>
  Four lines: a \<open>/*\<close> inside a block comment, a block comment inside a line comment, and
  a block comment over two lines with a line comment after its end, which holds a \<open>/*\<close>
  that is not closed.
\<close>

theorem comments_removed_witness:
  "format_shader (str ''a /* x /* y */ b'' @ NL @ str ''x // a /* b */ c'' @ NL @
                  str ''d /* two'' @ NL @ str ''three */ e // f /* g'')
     = Inr (str ''a  bxde'')"
proof -
  define s where "s = str ''a /* x /* y */ b'' @ NL @ str ''x // a /* b */ c'' @ NL @
                  str ''d /* two'' @ NL @ str ''three */ e // f /* g''"
  have 1: "splitlines s = [str ''a /* x /* y */ b'', str ''x // a /* b */ c'',
                           str ''d /* two'', str ''three */ e // f /* g'']"
    by (simp add: s_def splitlines_def str_def NL_def is_linebreak_def)
  have 2: "detectable_lines False (splitlines s)"
    unfolding 1 by (simp add: scan_defs str_def)
  have 3: "join NL (assemble [] (code_outside_comments (splitlines s))) = str ''a  bxde''"
    unfolding 1 by (simp add: scan_defs str_def NL_def)
  from comments_removed [OF 2] have "format_shader s = Inr (str ''a  bxde'')" unfolding 3 .
  then show ?thesis unfolding s_def .
qed

text \<open>
  C1 as stated fails: in \<open>a/*x*/b/*y*/c\<close> the text \<open>/*y*/\<close> is a well-formed block
  comment, and it is in the output; the text outside the comments is \<open>abc\<close>.
\<close>

theorem comments_removed_counterexample:
  "format_shader (str ''a/*x*/b/*y*/c'') = Inr (str ''ab/*y*/c'') \<and>
   join NL (assemble [] (code_outside_comments (splitlines (str ''a/*x*/b/*y*/c''))))
     = str ''abc'' \<and>
   sublist (str ''/*y*/'') (str ''ab/*y*/c'')"
proof -
  have 1: "format_shader (str ''a/*x*/b/*y*/c'') = Inr (str ''ab/*y*/c'')"
    by (simp add: eval_defs)
  have 2: "splitlines (str ''a/*x*/b/*y*/c'') = [str ''a/*x*/b/*y*/c'']"
    by (simp add: splitlines_def str_def is_linebreak_def)
  have 3: "join NL (assemble [] (code_outside_comments [str ''a/*x*/b/*y*/c''])) = str ''abc''"
    by (simp add: scan_defs str_def)
  have "str ''ab/*y*/c'' = str ''ab'' @ str ''/*y*/'' @ str ''c''" by (simp add: str_def)
  then have 4: "sublist (str ''/*y*/'') (str ''ab/*y*/c'')" unfolding sublist_def by blast
  from 1 2 3 4 show ?thesis by simp
qed

section \<open>Comment-only and blank lines\<close>





section \<open>Directives on lines of their own\<close>





section \<open>The start of a block comment\<close>

lemma next_state_closed_line:
  assumes "(\<not> in_multiline_comment st \<and> p = a) \<or>
           (in_multiline_comment st \<and> (\<exists>x. p = x @ str ''*/'' @ a \<and> \<not> sublist (str ''*/'') x))"
    and "\<not> sublist (str ''/*'') a"
  shows "\<not> in_multiline_comment (next_state st p)"
proof -
  from assms(1) consider "\<not> in_multiline_comment st" "p = a"
    | x where "in_multiline_comment st" "p = x @ str ''*/'' @ a" "\<not> sublist (str ''*/'') x"
    by blast
  then show ?thesis
  proof cases
    case 1
    with assms(2) show ?thesis
      by (simp add: next_state_outside detect_none split: option.splits)
  next
    case 2
    with assms(2) show ?thesis
      by (simp add: next_state_def handle_close detect_none split: option.splits)
  qed
qed

text \<open>
  C8, amended: the start of a block comment is looked for before \<open>//\<close> comments are
  removed. Let \<open>a\<close> be the part of a line that is read outside a block comment, up to
  its first \<open>/*\<close>: it begins at the start of the line, or after the first \<open>*/\<close> when
  the line begins inside a block comment, and it may hold a \<open>//\<close>. When no \<open>*/\<close> follows
  that \<open>/*\<close> on the line, the \<open>/*\<close> sets the flag: without it the loop body leaves the
  flag unset, with it the state is the same but for the flag; the following lines
  without \<open>*/\<close> are then skipped, the loop leaves the state as it is.
\<close>

theorem comment_start_inside_line_comment:
  assumes "(\<not> in_multiline_comment st \<and> p = a) \<or>
           (in_multiline_comment st \<and> (\<exists>x. p = x @ str ''*/'' @ a \<and> \<not> sublist (str ''*/'') x))"
    and "\<not> sublist (str ''/*'') a"
    and "\<not> sublist (str ''*/'') c"
    and "\<forall>l\<in>set ls. \<not> sublist (str ''*/'') l"
  shows "\<exists>st0 st'. loop_body st p = Inr st0 \<and> \<not> in_multiline_comment st0 \<and>
           loop_body st (p @ str ''/*'' @ c) = Inr st' \<and>
           st' = st0\<lparr>in_multiline_comment := True\<rparr> \<and> loop st' ls = Inr st'"
proof -
  define st0 where "st0 = next_state st p"
  define st' where "st' = next_state st (p @ str ''/*'' @ c)"
  have 0: "\<not> in_multiline_comment st0"
    unfolding st0_def using assms(1,2) by (rule next_state_closed_line)
  have 1: "st' = st0\<lparr>in_multiline_comment := True\<rparr>"
    unfolding st'_def st0_def using assms(1-3) by (rule next_state_open_line)
  then have "in_multiline_comment st'" by simp
  then have "foldl next_state st' ls = st'"
    using assms(4) by (rule foldl_skip)
  with 0 1 show ?thesis
    by (intro exI [of _ st0] exI [of _ st']) (simp add: loop_body_eq loop_eq st'_def st0_def)
qed

text \<open>The line \<open>x // note /* y\<close> swallows the two lines after it.\<close>

theorem comment_start_inside_line_comment_witness:
  "loop_body init_state (str ''x // note '') = Inr (init_state\<lparr>buffer_line := str ''x''\<rparr>) \<and>
   loop_body init_state (str ''x // note '' @ str ''/*'' @ str '' y'')
     = Inr (init_state\<lparr>buffer_line := str ''x'', in_multiline_comment := True\<rparr>) \<and>
   loop (init_state\<lparr>buffer_line := str ''x'', in_multiline_comment := True\<rparr>)
        [str ''float z;'', str ''w'']
     = Inr (init_state\<lparr>buffer_line := str ''x'', in_multiline_comment := True\<rparr>) \<and>
   format_shader (str ''x // note /* y'' @ NL @ str ''float z;'' @ NL @ str ''w'') = Inr (str ''x'')"
proof -
  have 1: "(\<not> in_multiline_comment init_state \<and> str ''x // note '' = str ''x // note '') \<or>
           (in_multiline_comment init_state \<and>
             (\<exists>x. str ''x // note '' = x @ str ''*/'' @ str ''x // note '' \<and>
                  \<not> sublist (str ''*/'') x))"
    by (simp add: init_state_def)
  have 2: "\<not> sublist (str ''/*'') (str ''x // note '')"
    and 3: "\<not> sublist (str ''*/'') (str '' y'')"
    and 4: "\<forall>l\<in>set [str ''float z;'', str ''w'']. \<not> sublist (str ''*/'') l"
    by (simp_all add: str_def sublist_Cons_right)
  have 5: "loop_body init_state (str ''x // note '') = Inr (init_state\<lparr>buffer_line := str ''x''\<rparr>)"
    by (simp add: eval_defs)
  have 6: "format_shader (str ''x // note /* y'' @ NL @ str ''float z;'' @ NL @ str ''w'')
      = Inr (str ''x'')"
    by (simp add: eval_defs)
  from comment_start_inside_line_comment [OF 1 2 3 4] 5 6 show ?thesis by auto
qed

text \<open>
  C8 as stated fails: in \<open>a /* b */ // c /* d\<close> a \<open>//\<close> comes before a \<open>/*\<close> that has no
  \<open>*/\<close> after it, but the detection of the line is used up by \<open>/* b */\<close>: the flag stays
  unset and the two lines that follow are kept.
\<close>

theorem comment_start_counterexample:
  "loop_body init_state (str ''a /* b */ // c /* d'')
     = Inr (init_state\<lparr>buffer_line := str ''a''\<rparr>) \<and>
   \<not> in_multiline_comment (init_state\<lparr>buffer_line := str ''a''\<rparr>) \<and>
   format_shader (str ''a /* b */ // c /* d'' @ NL @ str ''e;'' @ NL @ str ''f;'')
     = Inr (str ''ae;f;'')"
  by (simp add: eval_defs)

text \<open>
  C2, amended: let the first \<open>/*\<close> that a line has outside a block comment (after the
  first \<open>*/\<close> when the line begins inside one) have no \<open>*/\<close> after it on the line, and let
  no later line hold a \<open>*/\<close>. Then the comment start and all the lines after it are
  dropped and nothing is raised: the result is that of the input cut just before the
  \<open>/*\<close>. In particular the input \<open>/* unterminated\<close>, newline, \<open>float c = 3;\<close> gives the
  empty string.
\<close>

theorem unterminated_comment_discards_rest:
  assumes "loop init_state pre = Inr st"
    and "(\<not> in_multiline_comment st \<and> p = a) \<or>
         (in_multiline_comment st \<and> (\<exists>x. p = x @ str ''*/'' @ a \<and> \<not> sublist (str ''*/'') x))"
    and "\<not> sublist (str ''/*'') a" and "\<not> sublist (str ''*/'') b"
    and "\<forall>l\<in>set rest. \<not> sublist (str ''*/'') l"
  shows "(\<exists>out. format_lines (pre @ (p @ str ''/*'' @ b) # rest) = Inr out \<and>
                format_lines (pre @ [p]) = Inr out) \<and>
         format_shader (str ''/* unterminated'' @ NL @ str ''float c = 3;'') = Inr []"
proof
  have st: "foldl next_state init_state pre = st" using assms(1) by (simp add: loop_eq)
  define st' where "st' = next_state st (p @ str ''/*'' @ b)"
  have eq: "st' = (next_state st p)\<lparr>in_multiline_comment := True\<rparr>"
    unfolding st'_def using assms(2-4) by (rule next_state_open_line)
  then have "in_multiline_comment st'" by simp
  then have "foldl next_state st' rest = st'" using assms(5) by (rule foldl_skip)
  then have "final_lines (foldl next_state init_state (pre @ (p @ str ''/*'' @ b) # rest))
      = final_lines (foldl next_state init_state (pre @ [p]))"
    by (simp add: st st'_def [symmetric] eq)
  then show "\<exists>out. format_lines (pre @ (p @ str ''/*'' @ b) # rest) = Inr out \<and>
                format_lines (pre @ [p]) = Inr out"
    by (simp add: format_lines_eq)
  show "format_shader (str ''/* unterminated'' @ NL @ str ''float c = 3;'') = Inr []"
    by (simp add: eval_defs)
qed

text \<open>Three lines after \<open>a;\<close>: the code before the \<open>/*\<close> is kept, the rest is dropped.\<close>

theorem unterminated_comment_discards_rest_witness:
  "format_lines ([str ''a;''] @ (str ''b; '' @ str ''/*'' @ str '' open'') # [str ''c;'', str ''d;''])
     = Inr [str ''a;b;'']"
proof -
  have 1: "loop init_state [str ''a;''] = Inr (init_state\<lparr>buffer_line := str ''a;''\<rparr>)"
    by (simp add: eval_defs)
  have 2: "(\<not> in_multiline_comment (init_state\<lparr>buffer_line := str ''a;''\<rparr>) \<and> str ''b; '' = str ''b; '') \<or>
         (in_multiline_comment (init_state\<lparr>buffer_line := str ''a;''\<rparr>) \<and>
           (\<exists>x. str ''b; '' = x @ str ''*/'' @ str ''b; '' \<and> \<not> sublist (str ''*/'') x))"
    by (simp add: init_state_def)
  have 3: "\<not> sublist (str ''/*'') (str ''b; '')" and 4: "\<not> sublist (str ''*/'') (str '' open'')"
    and 5: "\<forall>l\<in>set [str ''c;'', str ''d;'']. \<not> sublist (str ''*/'') l"
    by (simp_all add: str_def sublist_Cons_right)
  have 6: "format_lines ([str ''a;''] @ [str ''b; '']) = Inr [str ''a;b;'']"
    by (simp add: eval_defs)
  from unterminated_comment_discards_rest [OF 1 2 3 4 5] 6 show ?thesis by auto
qed

text \<open>
  C2 as stated fails: in \<open>a /* b */ c /* d\<close> the second \<open>/*\<close> has no \<open>*/\<close> after it in the
  rest of the input, but the detection of the line is used up by \<open>/* b */\<close>: the comment
  start and the line after it are kept. The input cut before that \<open>/*\<close> gives \<open>a  c\<close>.
\<close>

theorem unterminated_comment_counterexample:
  "format_shader (str ''a /* b */ c /* d'' @ NL @ str ''e'') = Inr (str ''a  c /* de'') \<and>
   format_shader (str ''a /* b */ c '') = Inr (str ''a  c'') \<and>
   \<not> sublist (str ''*/'') (str '' d'') \<and> \<not> sublist (str ''*/'') (str ''e'')"
  by (simp add: eval_defs sublist_Cons_right)

end
